theory Spec2Isabelle
  imports Complex_Main "HOL-Library.Sublist"
begin

section \<open>The circuit built by TrugenbergerAlgorithm.py\<close>

text \<open>
  The program appends gates to one mutable circuit object \<open>qc\<close> and later asks the
  simulator for the state vector of the whole circuit. The circuit is modelled as the
  list of the gates appended so far; every function of the source takes the circuit and
  returns the extended one. A qubit is its index in the circuit, a register is the list
  of its qubits. The library refuses a gate whose qubits coincide or lie outside the
  circuit at the moment it is appended; here such a gate is appended all the same and
  refused when the circuit is simulated (\<open>gate_op\<close> below), so results about the functions
  of the program are stated for registers of distinct qubits of the circuit.
\<close>

datatype error = IndexError | ZeroDivisionError

text \<open>
  A numpy float in exact arithmetic: a real number, or the value nan. The rounding of
  double precision is not modelled.
\<close>

datatype npfloat = Num real | NaN

datatype gate =
    XGate nat
  | HGate nat
  | PhaseGate real nat
  | CXGate nat nat
  | CCXGate nat nat nat
  | MCXGate "nat list" nat
  | CRYGate npfloat nat nat
  | CPhaseGate real nat nat

type_synonym circuit = "gate list"

definition bind_err :: "error + 'a \<Rightarrow> ('a \<Rightarrow> error + 'b) \<Rightarrow> error + 'b" where
  "bind_err r f = (case r of Inl e \<Rightarrow> Inl e | Inr v \<Rightarrow> f v)"

text \<open>\<open>xs[j]\<close> for a non-negative index: out of range raises.\<close>

definition getitem :: "'a list \<Rightarrow> nat \<Rightarrow> error + 'a" where
  "getitem xs j = (if j < length xs then Inr (xs ! j) else Inl IndexError)"

subsection \<open>apply_pauli_from_int\<close>

text \<open>
  The format \<open>f"{value:0{w}b}"\<close>: the binary digits of the magnitude, most significant
  first, a leading minus sign for a negative value, zeros filled in after the sign up to
  the total width \<open>w\<close>.
\<close>

fun bin_digits :: "nat \<Rightarrow> string" where
  "bin_digits n =
     (if n < 2 then [if n = 0 then CHR ''0'' else CHR ''1'']
      else bin_digits (n div 2) @ [if n mod 2 = 0 then CHR ''0'' else CHR ''1''])"

declare bin_digits.simps [simp del]

definition zero_fill :: "nat \<Rightarrow> string \<Rightarrow> string" where
  "zero_fill w ds = replicate (w - length ds) (CHR ''0'') @ ds"

definition format_b :: "int \<Rightarrow> nat \<Rightarrow> string" where
  "format_b v w =
     (if v < 0 then CHR ''-'' # zero_fill (w - 1) (bin_digits (nat (- v)))
      else zero_fill w (bin_digits (nat v)))"

text \<open>The loop over \<open>enumerate(reversed(bin_string))\<close>.\<close>

fun pauli_loop :: "circuit \<Rightarrow> nat list \<Rightarrow> nat \<Rightarrow> string \<Rightarrow> error + circuit" where
  "pauli_loop qc qubits idx [] = Inr qc"
| "pauli_loop qc qubits idx (b # rest) =
     (if b = CHR ''1''
      then bind_err (getitem qubits idx)
             (\<lambda>q. pauli_loop (qc @ [XGate q]) qubits (Suc idx) rest)
      else pauli_loop qc qubits (Suc idx) rest)"

definition apply_pauli_from_int :: "circuit \<Rightarrow> int \<Rightarrow> nat list \<Rightarrow> error + circuit" where
  "apply_pauli_from_int qc v qubits =
     pauli_loop qc qubits 0 (rev (format_b v (length qubits)))"

subsection \<open>find_angle and controlled_si\<close>

definition np_sqrt :: "npfloat \<Rightarrow> npfloat" where
  "np_sqrt a = (case a of NaN \<Rightarrow> NaN | Num x \<Rightarrow> if x < 0 then NaN else Num (sqrt x))"

definition np_arccos :: "npfloat \<Rightarrow> npfloat" where
  "np_arccos a =
     (case a of NaN \<Rightarrow> NaN | Num x \<Rightarrow> if x < - 1 \<or> 1 < x then NaN else Num (arccos x))"

definition np_times :: "real \<Rightarrow> npfloat \<Rightarrow> npfloat" where
  "np_times c a = (case a of NaN \<Rightarrow> NaN | Num x \<Rightarrow> Num (c * x))"

text \<open>
  \<open>(j - 1) / j\<close> is Python's division of two integers: it raises for \<open>j = 0\<close>. The
  numpy functions never raise: outside their domain they return nan.
\<close>

definition find_angle :: "int \<Rightarrow> error + npfloat" where
  "find_angle j =
     (if j = 0 then Inl ZeroDivisionError
      else Inr (np_times (- 2) (np_arccos (np_sqrt (Num (real_of_int (j - 1) / real_of_int j))))))"

definition controlled_si ::
  "circuit \<Rightarrow> nat list \<Rightarrow> nat list \<Rightarrow> int \<Rightarrow> int \<Rightarrow> error + circuit" where
  "controlled_si qc p u i len_ps =
     bind_err (find_angle (len_ps + 1 - i)) (\<lambda>angle.
     bind_err (getitem u 0) (\<lambda>u0.
     bind_err (getitem u 1) (\<lambda>u1.
       Inr (qc @ [CRYGate angle u0 u1]))))"

subsection \<open>storage_algorithm\<close>

text \<open>The three inner loops of the storage sequence, over the given indices \<open>j\<close>.\<close>

fun ccx_loop ::
  "circuit \<Rightarrow> nat list \<Rightarrow> nat list \<Rightarrow> nat list \<Rightarrow> nat list \<Rightarrow> error + circuit" where
  "ccx_loop qc p u m [] = Inr qc"
| "ccx_loop qc p u m (j # js) =
     bind_err (getitem p j) (\<lambda>pj.
     bind_err (getitem u 1) (\<lambda>u1.
     bind_err (getitem m j) (\<lambda>mj.
       ccx_loop (qc @ [CCXGate pj u1 mj]) p u m js)))"

fun cx_x_loop :: "circuit \<Rightarrow> nat list \<Rightarrow> nat list \<Rightarrow> nat list \<Rightarrow> error + circuit" where
  "cx_x_loop qc p m [] = Inr qc"
| "cx_x_loop qc p m (j # js) =
     bind_err (getitem p j) (\<lambda>pj.
     bind_err (getitem m j) (\<lambda>mj.
     bind_err (getitem m j) (\<lambda>mj'.
       cx_x_loop (qc @ [CXGate pj mj, XGate mj']) p m js)))"

fun x_cx_loop :: "circuit \<Rightarrow> nat list \<Rightarrow> nat list \<Rightarrow> nat list \<Rightarrow> error + circuit" where
  "x_cx_loop qc p m [] = Inr qc"
| "x_cx_loop qc p m (j # js) =
     bind_err (getitem m j) (\<lambda>mj.
     bind_err (getitem p j) (\<lambda>pj.
     bind_err (getitem m j) (\<lambda>mj'.
       x_cx_loop (qc @ [XGate mj, CXGate pj mj']) p m js)))"

text \<open>The body of the loop over \<open>enumerate(ps)\<close>, steps 0 to 8.\<close>

definition storage_body ::
  "circuit \<Rightarrow> nat \<Rightarrow> nat list \<Rightarrow> nat list \<Rightarrow> nat list \<Rightarrow> nat \<Rightarrow> int \<Rightarrow> error + circuit" where
  "storage_body qc len_ps p u m idx val =
     bind_err (apply_pauli_from_int qc val p) (\<lambda>qc0.
     bind_err (ccx_loop qc0 p u m [0..<length p]) (\<lambda>qc1.
     bind_err (cx_x_loop qc1 p m [0..<length p]) (\<lambda>qc2.
     bind_err (getitem u 0) (\<lambda>u0.
     bind_err (controlled_si (qc2 @ [MCXGate m u0]) p u (int idx + 1) (int len_ps)) (\<lambda>qc4.
     bind_err (getitem u 0) (\<lambda>u0'.
     bind_err (x_cx_loop (qc4 @ [MCXGate m u0']) p m (rev [0..<length p])) (\<lambda>qc6.
     bind_err (ccx_loop qc6 p u m (rev [0..<length p])) (\<lambda>qc7.
       apply_pauli_from_int qc7 val p))))))))"

fun storage_loop ::
  "circuit \<Rightarrow> nat \<Rightarrow> nat list \<Rightarrow> nat list \<Rightarrow> nat list \<Rightarrow> nat \<Rightarrow> int list \<Rightarrow> error + circuit" where
  "storage_loop qc len_ps p u m idx [] = Inr qc"
| "storage_loop qc len_ps p u m idx (val # rest) =
     bind_err (storage_body qc len_ps p u m idx val)
       (\<lambda>qc'. storage_loop qc' len_ps p u m (Suc idx) rest)"

definition storage_algorithm ::
  "circuit \<Rightarrow> int list \<Rightarrow> nat list \<Rightarrow> nat list \<Rightarrow> nat list \<Rightarrow> error + circuit" where
  "storage_algorithm qc ps p u m = storage_loop qc (length ps) p u m 0 ps"

subsection \<open>The retrieval operator\<close>

text \<open>
  \<open>np.pi / (2.0 * n)\<close> and \<open>-np.pi / (n)\<close> divide Python floats: they raise for \<open>n = 0\<close>.
  In \<open>u_gate\<close> the first bit-flip has been appended by then.
\<close>

definition u_gate :: "circuit \<Rightarrow> nat \<Rightarrow> nat \<Rightarrow> error + circuit" where
  "u_gate qc qubit n =
     (if n = 0 then Inl ZeroDivisionError
      else Inr (qc @ [XGate qubit, PhaseGate (pi / (2 * real n)) qubit, XGate qubit]))"

definition cu_squared :: "circuit \<Rightarrow> nat \<Rightarrow> nat \<Rightarrow> nat \<Rightarrow> error + circuit" where
  "cu_squared qc control target n =
     (if n = 0 then Inl ZeroDivisionError
      else Inr (qc @ [CXGate control target,
                      CPhaseGate (- pi / real n) control target,
                      CXGate control target]))"

fun u_loop :: "circuit \<Rightarrow> nat \<Rightarrow> nat list \<Rightarrow> error + circuit" where
  "u_loop qc n [] = Inr qc"
| "u_loop qc n (q # qs) = bind_err (u_gate qc q n) (\<lambda>qc'. u_loop qc' n qs)"

fun cu_loop :: "circuit \<Rightarrow> nat \<Rightarrow> nat \<Rightarrow> nat list \<Rightarrow> error + circuit" where
  "cu_loop qc c n [] = Inr qc"
| "cu_loop qc c n (q # qs) = bind_err (cu_squared qc c q n) (\<lambda>qc'. cu_loop qc' c n qs)"

definition apply_u_and_cu :: "circuit \<Rightarrow> nat list \<Rightarrow> nat \<Rightarrow> error + circuit" where
  "apply_u_and_cu qc m c =
     (let n = length m in
      bind_err (u_loop qc n m) (\<lambda>qc'. cu_loop qc' c n m))"

definition retrieval_algorithm ::
  "circuit \<Rightarrow> nat list \<Rightarrow> nat list \<Rightarrow> nat \<Rightarrow> error + circuit" where
  "retrieval_algorithm qc i m c =
     bind_err (cx_x_loop (qc @ [HGate c]) i m [0..<length i]) (\<lambda>qc1.
     bind_err (apply_u_and_cu qc1 m c) (\<lambda>qc2.
     bind_err (x_cx_loop qc2 i m (rev [0..<length i])) (\<lambda>qc3.
       Inr (qc3 @ [HGate c]))))"

fun h_loop :: "circuit \<Rightarrow> nat list \<Rightarrow> circuit" where
  "h_loop qc [] = qc"
| "h_loop qc (q # qs) = h_loop (qc @ [HGate q]) qs"

definition bv_algorithm ::
  "circuit \<Rightarrow> nat list \<Rightarrow> nat list \<Rightarrow> nat \<Rightarrow> 'a \<Rightarrow> error + circuit" where
  "bv_algorithm qc i m c degree_threshold =
     bind_err (retrieval_algorithm (h_loop qc i) i m c) (\<lambda>qc'. Inr (h_loop qc' i))"

definition u_and_cu_gates :: "nat list \<Rightarrow> nat \<Rightarrow> circuit" where
  "u_and_cu_gates m c =
     concat (map (\<lambda>q. [XGate q, PhaseGate (pi / (2 * real (length m))) q, XGate q]) m) @
     concat (map (\<lambda>q. [CXGate c q, CPhaseGate (- pi / real (length m)) c q, CXGate c q]) m)"

definition spec_u_and_cu :: "nat list \<Rightarrow> nat \<Rightarrow> circuit" where
  "spec_u_and_cu m c =
     concat (map (\<lambda>q. [XGate q, PhaseGate (pi / (2 * real (length m))) q, XGate q]) m) @
     map (\<lambda>q. CPhaseGate (- pi / real (length m)) c q) m"

type_synonym state = "nat \<Rightarrow> complex"

definition x_op :: "nat \<Rightarrow> state \<Rightarrow> state" where
  "x_op q \<psi> = (\<lambda>k. \<psi> (flip_bit q k))"

definition h_op :: "nat \<Rightarrow> state \<Rightarrow> state" where
  "h_op q \<psi> =
     (\<lambda>k. (\<psi> (unset_bit q k) + (if bit k q then - \<psi> (set_bit q k) else \<psi> (set_bit q k)))
          / complex_of_real (sqrt 2))"

definition p_op :: "real \<Rightarrow> nat \<Rightarrow> state \<Rightarrow> state" where
  "p_op \<theta> q \<psi> = (\<lambda>k. if bit k q then cis \<theta> * \<psi> k else \<psi> k)"

definition cx_op :: "nat \<Rightarrow> nat \<Rightarrow> state \<Rightarrow> state" where
  "cx_op c t \<psi> = (\<lambda>k. if bit k c then \<psi> (flip_bit t k) else \<psi> k)"

definition ccx_op :: "nat \<Rightarrow> nat \<Rightarrow> nat \<Rightarrow> state \<Rightarrow> state" where
  "ccx_op c1 c2 t \<psi> = (\<lambda>k. if bit k c1 \<and> bit k c2 then \<psi> (flip_bit t k) else \<psi> k)"

definition mcx_op :: "nat list \<Rightarrow> nat \<Rightarrow> state \<Rightarrow> state" where
  "mcx_op cs t \<psi> = (\<lambda>k. if \<forall>c\<in>set cs. bit k c then \<psi> (flip_bit t k) else \<psi> k)"

definition cry_op :: "real \<Rightarrow> nat \<Rightarrow> nat \<Rightarrow> state \<Rightarrow> state" where
  "cry_op \<theta> c t \<psi> =
     (\<lambda>k. if bit k c
          then (if bit k t
                then complex_of_real (sin (\<theta> / 2)) * \<psi> (unset_bit t k)
                     + complex_of_real (cos (\<theta> / 2)) * \<psi> k
                else complex_of_real (cos (\<theta> / 2)) * \<psi> k
                     - complex_of_real (sin (\<theta> / 2)) * \<psi> (set_bit t k))
          else \<psi> k)"

definition cp_op :: "real \<Rightarrow> nat \<Rightarrow> nat \<Rightarrow> state \<Rightarrow> state" where
  "cp_op \<theta> c t \<psi> = (\<lambda>k. if bit k c \<and> bit k t then cis \<theta> * \<psi> k else \<psi> k)"

fun gate_op :: "nat \<Rightarrow> gate \<Rightarrow> (state \<Rightarrow> state) option" where
  "gate_op n (XGate q) = (if q < n then Some (x_op q) else None)"
| "gate_op n (HGate q) = (if q < n then Some (h_op q) else None)"
| "gate_op n (PhaseGate \<theta> q) = (if q < n then Some (p_op \<theta> q) else None)"
| "gate_op n (CXGate c t) =
     (if c < n \<and> t < n \<and> c \<noteq> t then Some (cx_op c t) else None)"
| "gate_op n (CCXGate c1 c2 t) =
     (if c1 < n \<and> c2 < n \<and> t < n \<and> c1 \<noteq> c2 \<and> c1 \<noteq> t \<and> c2 \<noteq> t
      then Some (ccx_op c1 c2 t) else None)"
| "gate_op n (MCXGate cs t) =
     (if (\<forall>c\<in>set cs. c < n) \<and> t < n \<and> distinct cs \<and> t \<notin> set cs
      then Some (mcx_op cs t) else None)"
| "gate_op n (CRYGate a c t) =
     (case a of
        NaN \<Rightarrow> None
      | Num \<theta> \<Rightarrow> if c < n \<and> t < n \<and> c \<noteq> t then Some (cry_op \<theta> c t) else None)"
| "gate_op n (CPhaseGate \<theta> c t) =
     (if c < n \<and> t < n \<and> c \<noteq> t then Some (cp_op \<theta> c t) else None)"

fun statevector :: "nat \<Rightarrow> circuit \<Rightarrow> state \<Rightarrow> state option" where
  "statevector n [] \<psi> = Some \<psi>"
| "statevector n (g # gs) \<psi> =
     (case gate_op n g of None \<Rightarrow> None | Some f \<Rightarrow> statevector n gs (f \<psi>))"

definition zero_state :: state where
  "zero_state = (\<lambda>k. if k = 0 then 1 else 0)"

definition norm2 :: "nat \<Rightarrow> state \<Rightarrow> real" where
  "norm2 n \<psi> = (\<Sum>k<2 ^ n. (cmod (\<psi> k))\<^sup>2)"

definition probability :: "nat \<Rightarrow> nat list \<Rightarrow> nat \<Rightarrow> state \<Rightarrow> real" where
  "probability n qs v \<psi> =
     (\<Sum>k\<in>{k. k < 2 ^ n \<and> (\<forall>j<length qs. bit k (qs ! j) = bit v j)}. (cmod (\<psi> k))\<^sup>2)"

definition weight :: "state \<Rightarrow> nat set \<Rightarrow> real" where
  "weight \<psi> S = (\<Sum>k\<in>S. (cmod (\<psi> k))\<^sup>2)"

text \<open>A set of basis indices that no gate on the given target qubits leaves.\<close>

definition closed_under :: "nat set \<Rightarrow> nat set \<Rightarrow> bool" where
  "closed_under T S \<longleftrightarrow> (\<forall>t\<in>T. \<forall>k. flip_bit t k \<in> S \<longleftrightarrow> k \<in> S)"

fun target :: "gate \<Rightarrow> nat" where
  "target (XGate q) = q"
| "target (HGate q) = q"
| "target (PhaseGate \<theta> q) = q"
| "target (CXGate c t) = t"
| "target (CCXGate c1 c2 t) = t"
| "target (MCXGate cs t) = t"
| "target (CRYGate a c t) = t"
| "target (CPhaseGate \<theta> c t) = t"

subsection \<open>The gate lists the loops append\<close>

fun ones :: "string \<Rightarrow> nat \<Rightarrow> nat list" where
  "ones [] idx = []"
| "ones (b # rest) idx =
     (if b = CHR ''1'' then idx # ones rest (Suc idx) else ones rest (Suc idx))"

definition digit :: "bool \<Rightarrow> char" where
  "digit b = (if b then CHR ''1'' else CHR ''0'')"

definition pauli_qubits :: "int \<Rightarrow> nat list \<Rightarrow> nat list" where
  "pauli_qubits v qubits = map (\<lambda>j. qubits ! j) (ones (rev (format_b v (length qubits))) 0)"

subsection \<open>Gates that permute the basis states and multiply by a phase\<close>

fun perm_of :: "gate \<Rightarrow> nat \<Rightarrow> nat" where
  "perm_of (XGate q) k = flip_bit q k"
| "perm_of (CXGate c t) k = (if bit k c then flip_bit t k else k)"
| "perm_of (CCXGate c1 c2 t) k = (if bit k c1 \<and> bit k c2 then flip_bit t k else k)"
| "perm_of (MCXGate cs t) k = (if \<forall>c\<in>set cs. bit k c then flip_bit t k else k)"
| "perm_of (HGate q) k = k"
| "perm_of (PhaseGate \<theta> q) k = k"
| "perm_of (CRYGate a c t) k = k"
| "perm_of (CPhaseGate \<theta> c t) k = k"

fun phase_of :: "gate \<Rightarrow> nat \<Rightarrow> complex" where
  "phase_of (PhaseGate \<theta> q) k = (if bit k q then cis \<theta> else 1)"
| "phase_of (CPhaseGate \<theta> c t) k = (if bit k c \<and> bit k t then cis \<theta> else 1)"
| "phase_of (XGate q) k = 1"
| "phase_of (CXGate c t) k = 1"
| "phase_of (CCXGate c1 c2 t) k = 1"
| "phase_of (MCXGate cs t) k = 1"
| "phase_of (HGate q) k = 1"
| "phase_of (CRYGate a c t) k = 1"

fun monomial :: "gate \<Rightarrow> bool" where
  "monomial (HGate q) = False"
| "monomial (CRYGate a c t) = False"
| "monomial (XGate q) = True"
| "monomial (PhaseGate \<theta> q) = True"
| "monomial (CXGate c t) = True"
| "monomial (CCXGate c1 c2 t) = True"
| "monomial (MCXGate cs t) = True"
| "monomial (CPhaseGate \<theta> c t) = True"

text \<open>The basis state a basis state is sent to by the permutations of a circuit.\<close>

fun fwd :: "circuit \<Rightarrow> nat \<Rightarrow> nat" where
  "fwd [] k = k"
| "fwd (g # gs) k = fwd gs (perm_of g k)"

text \<open>The phase the circuit has multiplied the amplitude at basis state \<open>k\<close> by.\<close>

fun phases :: "circuit \<Rightarrow> nat \<Rightarrow> complex" where
  "phases [] k = 1"
| "phases (g # gs) k = phases gs k * phase_of g (fwd (rev gs) k)"

definition gates_ok :: "nat \<Rightarrow> circuit \<Rightarrow> bool" where
  "gates_ok n gs \<longleftrightarrow> (\<forall>g\<in>set gs. gate_op n g \<noteq> None)"

subsection \<open>The circuits of storage and retrieval, as gate lists\<close>

definition ccx_gates :: "nat list \<Rightarrow> nat list \<Rightarrow> nat list \<Rightarrow> nat list \<Rightarrow> circuit" where
  "ccx_gates p u m js = map (\<lambda>j. CCXGate (p ! j) (u ! 1) (m ! j)) js"

definition cx_x_gates :: "nat list \<Rightarrow> nat list \<Rightarrow> nat list \<Rightarrow> circuit" where
  "cx_x_gates p m js = concat (map (\<lambda>j. [CXGate (p ! j) (m ! j), XGate (m ! j)]) js)"

definition x_cx_gates :: "nat list \<Rightarrow> nat list \<Rightarrow> nat list \<Rightarrow> circuit" where
  "x_cx_gates p m js = concat (map (\<lambda>j. [XGate (m ! j), CXGate (p ! j) (m ! j)]) js)"

text \<open>Steps 0 to 3 of the storage sequence, and steps 5 to 8 that undo them.\<close>

definition compute_gates :: "nat list \<Rightarrow> nat list \<Rightarrow> nat list \<Rightarrow> int \<Rightarrow> circuit" where
  "compute_gates p u m val =
     map XGate (pauli_qubits val p) @ ccx_gates p u m [0..<length p]
     @ cx_x_gates p m [0..<length p] @ [MCXGate m (u ! 0)]"

definition uncompute_gates :: "nat list \<Rightarrow> nat list \<Rightarrow> nat list \<Rightarrow> int \<Rightarrow> circuit" where
  "uncompute_gates p u m val =
     [MCXGate m (u ! 0)] @ x_cx_gates p m (rev [0..<length p])
     @ ccx_gates p u m (rev [0..<length p]) @ map XGate (pauli_qubits val p)"

definition body_gates :: "npfloat \<Rightarrow> nat list \<Rightarrow> nat list \<Rightarrow> nat list \<Rightarrow> int \<Rightarrow> circuit" where
  "body_gates a p u m val =
     compute_gates p u m val @ [CRYGate a (u ! 0) (u ! 1)] @ uncompute_gates p u m val"

text \<open>The angle of the rotation that stores the pattern at position \<open>idx\<close> of \<open>N\<close>.\<close>

definition step_angle :: "nat \<Rightarrow> nat \<Rightarrow> real" where
  "step_angle N idx =
     - 2 * arccos (sqrt (real_of_int (int N - int idx - 1) / real_of_int (int N - int idx)))"

fun storage_gates ::
  "nat \<Rightarrow> nat list \<Rightarrow> nat list \<Rightarrow> nat list \<Rightarrow> nat \<Rightarrow> int list \<Rightarrow> circuit" where
  "storage_gates N p u m idx [] = []"
| "storage_gates N p u m idx (val # rest) =
     body_gates (Num (step_angle N idx)) p u m val @ storage_gates N p u m (Suc idx) rest"

definition retrieval_gates :: "nat list \<Rightarrow> nat list \<Rightarrow> nat \<Rightarrow> circuit" where
  "retrieval_gates i m c =
     [HGate c] @ cx_x_gates i m [0..<length i] @ u_and_cu_gates m c
     @ x_cx_gates i m (rev [0..<length i]) @ [HGate c]"

subsection \<open>Registers\<close>

text \<open>
  The registers of a circuit on \<open>n\<close> qubits are lists of distinct qubits below \<open>n\<close>
  that do not overlap. Storage uses a pattern register, the two intermediate qubits and a
  memory register as wide as the pattern register; retrieval uses an input register, a
  memory register at least as wide, and one control qubit.
\<close>

definition storage_regs :: "nat \<Rightarrow> nat list \<Rightarrow> nat list \<Rightarrow> nat list \<Rightarrow> bool" where
  "storage_regs n p u m \<longleftrightarrow>
     distinct (p @ u @ m) \<and> list_all (\<lambda>q. q < n) (p @ u @ m)
     \<and> length u = 2 \<and> length m = length p"

definition retrieval_regs :: "nat \<Rightarrow> nat list \<Rightarrow> nat list \<Rightarrow> nat \<Rightarrow> bool" where
  "retrieval_regs n i m c \<longleftrightarrow>
     distinct (i @ m @ [c]) \<and> list_all (\<lambda>q. q < n) (i @ m @ [c]) \<and> length i \<le> length m"

subsection \<open>The retrieval sequence between its two Hadamard gates\<close>

definition retrieval_middle :: "nat list \<Rightarrow> nat list \<Rightarrow> nat \<Rightarrow> circuit" where
  "retrieval_middle i m c =
     cx_x_gates i m [0..<length i] @ u_and_cu_gates m c @ x_cx_gates i m (rev [0..<length i])"

subsection \<open>Probabilities of register values\<close>

definition value_set :: "nat \<Rightarrow> nat list \<Rightarrow> nat \<Rightarrow> nat set" where
  "value_set n qs v = {k. k < 2 ^ n \<and> (\<forall>j<length qs. bit k (qs ! j) = bit v j)}"

subsection \<open>Steps 0 to 3 of the storage sequence on a basis state\<close>

definition pattern_bit :: "int \<Rightarrow> nat \<Rightarrow> bool" where
  "pattern_bit val j = bit (nat \<bar>val\<bar>) j"

subsection \<open>The state after one run of the storage sequence\<close>

text \<open>
  Steps 0 to 3 send the basis state \<open>k\<close> to \<open>fwd (compute_gates \<dots>) k\<close>; the pattern matches
  \<open>k\<close> when this sets the first intermediate qubit. The rotation then mixes \<open>k\<close> with its
  partner, the basis state that differs from it in the second intermediate qubit once
  steps 0 to 3 are done.
\<close>

definition matches :: "nat list \<Rightarrow> nat list \<Rightarrow> nat list \<Rightarrow> int \<Rightarrow> nat \<Rightarrow> bool" where
  "matches p u m val k = bit (fwd (compute_gates p u m val) k) (u ! 0)"

definition partner :: "nat list \<Rightarrow> nat list \<Rightarrow> nat list \<Rightarrow> int \<Rightarrow> nat \<Rightarrow> nat" where
  "partner p u m val k =
     fwd (rev (compute_gates p u m val)) (flip_bit (u ! 1) (fwd (compute_gates p u m val) k))"

definition body_state ::
  "real \<Rightarrow> nat list \<Rightarrow> nat list \<Rightarrow> nat list \<Rightarrow> int \<Rightarrow> state \<Rightarrow> state" where
  "body_state \<theta> p u m val \<psi> =
     (\<lambda>k. if matches p u m val k
          then (if bit k (u ! 1)
                then complex_of_real (sin (\<theta> / 2)) * \<psi> (partner p u m val k)
                     + complex_of_real (cos (\<theta> / 2)) * \<psi> k
                else complex_of_real (cos (\<theta> / 2)) * \<psi> k
                     - complex_of_real (sin (\<theta> / 2)) * \<psi> (partner p u m val k))
          else \<psi> k)"

subsection \<open>The basis states of the memory\<close>

fun basis_index :: "nat list \<Rightarrow> nat" where
  "basis_index [] = 0"
| "basis_index (q # qs) = set_bit q (basis_index qs)"

text \<open>
  The processing term has only the second intermediate qubit set; a stored pattern is
  the basis state whose memory register holds the pattern, all other qubits zero.
\<close>

definition proc_index :: "nat list \<Rightarrow> nat" where
  "proc_index u = basis_index [u ! 1]"

definition stored_index :: "nat list \<Rightarrow> int \<Rightarrow> nat" where
  "stored_index m val = basis_index (pauli_qubits val m)"

subsection \<open>The state of the memory\<close>

text \<open>
  After the patterns \<open>past\<close> out of \<open>N\<close> have been stored: each of them has amplitude
  \<open>1/\<surd>N\<close>, the processing term has what is left, every other basis state has none.
\<close>

definition memory_state :: "nat \<Rightarrow> nat list \<Rightarrow> nat list \<Rightarrow> int list \<Rightarrow> state" where
  "memory_state N u m past =
     (\<lambda>k. if k = proc_index u
          then complex_of_real (sqrt (real (N - length past) / real N))
          else if k \<in> stored_index m ` set past
          then complex_of_real (1 / sqrt (real N))
          else 0)"

definition patterns_ok :: "nat \<Rightarrow> int list \<Rightarrow> bool" where
  "patterns_ok w vals \<longleftrightarrow> distinct vals \<and> list_all (\<lambda>val. 0 \<le> val \<and> val < 2 ^ w) vals"

subsection \<open>Registers that hold no amplitude\<close>

text \<open>
  A register is zero in a state when every basis state in which a qubit of the register
  is set has amplitude zero; it avoids a value when every basis state in which it holds
  that value has amplitude zero.
\<close>

definition register_zero :: "nat \<Rightarrow> nat list \<Rightarrow> state \<Rightarrow> bool" where
  "register_zero n qs \<psi> \<longleftrightarrow> (\<forall>k<2 ^ n. (\<exists>q\<in>set qs. bit k q) \<longrightarrow> \<psi> k = 0)"

definition register_avoids :: "nat \<Rightarrow> nat list \<Rightarrow> nat \<Rightarrow> state \<Rightarrow> bool" where
  "register_avoids n qs v \<psi> \<longleftrightarrow>
     (\<forall>k<2 ^ n. (\<forall>j<length qs. bit k (qs ! j) = bit v j) \<longrightarrow> \<psi> k = 0)"

subsection \<open>Amplitudes of the state the simulator returns\<close>

text \<open>
  The amplitude of basis state \<open>k\<close> in the state vector of a built circuit, simulated
  from the all-zero state; none when the circuit was not built or is not simulated.
\<close>

definition final_amplitude :: "nat \<Rightarrow> error + circuit \<Rightarrow> nat \<Rightarrow> complex option" where
  "final_amplitude n built k =
     (case built of
        Inl e \<Rightarrow> None
      | Inr gs \<Rightarrow> (case statevector n gs zero_state of None \<Rightarrow> None | Some \<phi> \<Rightarrow> Some (\<phi> k)))"

lemma bind_err_Inr [simp]: "bind_err (Inr v) f = f v"
  by (simp add: bind_err_def)

lemma bind_err_Inl [simp]: "bind_err (Inl e) f = Inl e"
  by (simp add: bind_err_def)

lemma u_loop_eq:
  "qs \<noteq> [] \<longrightarrow> n \<noteq> 0 \<Longrightarrow>
   u_loop qc n qs =
     Inr (qc @ concat (map (\<lambda>q. [XGate q, PhaseGate (pi / (2 * real n)) q, XGate q]) qs))"
  by (induction qs arbitrary: qc) (simp_all add: u_gate_def)

lemma cu_loop_eq:
  "qs \<noteq> [] \<longrightarrow> n \<noteq> 0 \<Longrightarrow>
   cu_loop qc c n qs =
     Inr (qc @ concat (map (\<lambda>q. [CXGate c q, CPhaseGate (- pi / real n) c q, CXGate c q]) qs))"
  by (induction qs arbitrary: qc) (simp_all add: cu_squared_def)

lemma apply_u_and_cu_eq: "apply_u_and_cu qc m c = Inr (qc @ u_and_cu_gates m c)"
  by (simp add: apply_u_and_cu_def Let_def u_loop_eq cu_loop_eq u_and_cu_gates_def)

lemma cex5: "apply_u_and_cu [] [0] 1 \<noteq> Inr (spec_u_and_cu [0] 1)"
  by (simp add: apply_u_and_cu_eq u_and_cu_gates_def spec_u_and_cu_def)

lemma find_angle_1: "find_angle 1 = Inr (Num (- pi))"
  by (simp add: find_angle_def np_sqrt_def np_arccos_def np_times_def)

lemma find_angle_0: "find_angle 0 = Inl ZeroDivisionError"
  by (simp add: find_angle_def)

lemma find_angle_neg: "j < 0 \<Longrightarrow> find_angle j = Inr NaN"
proof -
  assume j: "j < 0"
  have "real_of_int (j - 1) / real_of_int j > 1"
    using j by (simp add: field_simps)
  then have "sqrt (real_of_int (j - 1) / real_of_int j) > 1"
    by simp
  then show ?thesis using j
    by (simp add: find_angle_def np_sqrt_def np_arccos_def np_times_def)
qed

lemma find_angle_pos:
  "1 \<le> j \<Longrightarrow> find_angle j = Inr (Num (- 2 * arccos (sqrt (real_of_int (j - 1) / real_of_int j))))"
proof -
  assume j: "1 \<le> j"
  define x where "x = real_of_int (j - 1) / real_of_int j"
  have a: "0 \<le> x" using j by (simp add: x_def)
  have "x \<le> 1" using j by (simp add: x_def field_simps)
  then have b: "sqrt x \<le> 1" by simp
  have c: "\<not> sqrt x < - 1"
  proof -
    have "0 \<le> sqrt x" using a by simp
    then show ?thesis by linarith
  qed
  have b': "\<not> 1 < sqrt x" using b by linarith
  have a': "\<not> x < 0" using a by linarith
  have "find_angle j = Inr (np_times (- 2) (np_arccos (np_sqrt (Num x))))"
    using j by (simp add: find_angle_def x_def)
  also have "\<dots> = Inr (Num (- 2 * arccos (sqrt x)))"
    by (simp only: np_sqrt_def np_arccos_def np_times_def npfloat.case a' b' c if_False simp_thms)
  finally show ?thesis by (simp add: x_def)
qed

lemma bv_inert: "bv_algorithm qc i m c (t1::'a) = bv_algorithm qc i m c (t2::'b)"
  by (simp add: bv_algorithm_def)

lemma statevector_append:
  "statevector n (gs @ hs) \<psi> =
     (case statevector n gs \<psi> of None \<Rightarrow> None | Some \<phi> \<Rightarrow> statevector n hs \<phi>)"
  by (induction gs arbitrary: \<psi>) (auto split: option.splits)

lemma lt_pow2_iff_bits: "(k::nat) < 2 ^ n \<longleftrightarrow> (\<forall>q. bit k q \<longrightarrow> q < n)"
proof
  assume "k < 2 ^ n"
  then have "take_bit n k = k" by (simp add: take_bit_nat_eq_self_iff)
  then have "\<And>q. bit k q = bit (take_bit n k) q" by simp
  then have "\<And>q. bit k q = (q < n \<and> bit k q)" by (simp add: bit_take_bit_iff)
  then show "\<forall>q. bit k q \<longrightarrow> q < n" by blast
next
  assume a: "\<forall>q. bit k q \<longrightarrow> q < n"
  have "take_bit n k = k"
    by (rule bit_eqI) (use a in \<open>auto simp: bit_take_bit_iff\<close>)
  then show "k < 2 ^ n" by (simp add: take_bit_nat_eq_self_iff)
qed

lemma flip_bit_lt [simp]: "q < n \<Longrightarrow> flip_bit q (k::nat) < 2 ^ n \<longleftrightarrow> k < 2 ^ n"
  by (auto simp: lt_pow2_iff_bits bit_flip_bit_iff)

lemma set_bit_lt [simp]: "q < n \<Longrightarrow> set_bit q (k::nat) < 2 ^ n \<longleftrightarrow> k < 2 ^ n"
  by (auto simp: lt_pow2_iff_bits bit_set_bit_iff)

lemma unset_bit_lt: "q < n \<Longrightarrow> k < 2 ^ n \<Longrightarrow> unset_bit q (k::nat) < 2 ^ n"
  by (auto simp: lt_pow2_iff_bits bit_unset_bit_iff)

lemma flip_flip [simp]: "flip_bit q (flip_bit q (k::nat)) = k"
  by (rule bit_eqI) (auto simp: bit_flip_bit_iff)

lemma unset_bit_id: "\<not> bit k q \<Longrightarrow> unset_bit q (k::nat) = k"
  by (rule bit_eqI) (auto simp: bit_unset_bit_iff)

lemma set_bit_id: "bit k q \<Longrightarrow> set_bit q (k::nat) = k"
  by (rule bit_eqI) (auto simp: bit_set_bit_iff)

lemma unset_set [simp]: "unset_bit q (set_bit q (k::nat)) = unset_bit q k"
  by (rule bit_eqI) (auto simp: bit_unset_bit_iff bit_set_bit_iff)

lemma set_unset [simp]: "set_bit q (unset_bit q (k::nat)) = set_bit q k"
  by (rule bit_eqI) (auto simp: bit_unset_bit_iff bit_set_bit_iff)

lemma flip_eq_set: "\<not> bit k q \<Longrightarrow> flip_bit q (k::nat) = set_bit q k"
  by (rule bit_eqI) (auto simp: bit_flip_bit_iff bit_set_bit_iff)

lemma flip_eq_unset: "bit k q \<Longrightarrow> flip_bit q (k::nat) = unset_bit q k"
  by (rule bit_eqI) (auto simp: bit_flip_bit_iff bit_unset_bit_iff)

text \<open>Sums over a set of basis indices that is closed under flipping one bit.\<close>

lemma sum_flip:
  fixes f :: "nat \<Rightarrow> real"
  assumes "\<And>k. flip_bit t k \<in> S \<longleftrightarrow> k \<in> S"
  shows "(\<Sum>k\<in>S. f (flip_bit t k)) = (\<Sum>k\<in>S. f k)"
  by (rule sum.reindex_bij_witness [where i = "flip_bit t" and j = "flip_bit t"])
     (simp_all add: assms)

lemma sum_cond_flip:
  fixes f :: "nat \<Rightarrow> real"
  assumes "\<And>k. flip_bit t k \<in> S \<longleftrightarrow> k \<in> S"
    and "\<And>k. c (flip_bit t k) = c k"
  shows "(\<Sum>k\<in>S. f (if c k then flip_bit t k else k)) = (\<Sum>k\<in>S. f k)"
  by (rule sum.reindex_bij_witness
        [where i = "\<lambda>k. if c k then flip_bit t k else k"
           and j = "\<lambda>k. if c k then flip_bit t k else k"])
     (auto simp: assms)

lemma sum_pairs:
  fixes f :: "nat \<Rightarrow> real"
  assumes fin: "finite S" and cl: "\<And>k. flip_bit t k \<in> S \<longleftrightarrow> k \<in> S"
  shows "(\<Sum>k\<in>S. f k) = (\<Sum>k\<in>{k\<in>S. \<not> bit k t}. f k + f (set_bit t k))"
proof -
  let ?S0 = "{k\<in>S. \<not> bit k t}" and ?S1 = "{k\<in>S. bit k t}"
  have S: "S = ?S0 \<union> ?S1" by auto
  have d: "?S0 \<inter> ?S1 = {}" by auto
  have "(\<Sum>k\<in>S. f k) = (\<Sum>k\<in>?S0. f k) + (\<Sum>k\<in>?S1. f k)"
    using sum.union_disjoint [of ?S0 ?S1 f] fin d S by simp
  also have "(\<Sum>k\<in>?S1. f k) = (\<Sum>k\<in>?S0. f (set_bit t k))"
  proof (rule sum.reindex_bij_witness [where i = "set_bit t" and j = "unset_bit t"])
    fix a assume a: "a \<in> ?S1"
    then show "set_bit t (unset_bit t a) = a" by (simp add: set_bit_id)
    have "unset_bit t a = flip_bit t a" using a by (simp add: flip_eq_unset)
    then show "unset_bit t a \<in> ?S0" using a cl [of a] by (simp add: bit_flip_bit_iff)
    show "f (set_bit t (unset_bit t a)) = f a" using a by (simp add: set_bit_id)
  next
    fix b assume b: "b \<in> ?S0"
    then show "unset_bit t (set_bit t b) = b" by (simp add: unset_bit_id)
    have "set_bit t b = flip_bit t b" using b by (simp add: flip_eq_set)
    then show "set_bit t b \<in> ?S1" using b cl [of b] by (simp add: bit_flip_bit_iff)
  qed
  finally show ?thesis by (simp add: sum.distrib)
qed

lemma set_set [simp]: "set_bit q (set_bit q (k::nat)) = set_bit q k"
  by (rule bit_eqI) (auto simp: bit_set_bit_iff)

lemma hadamard_pair:
  "(cmod ((a + b) / complex_of_real (sqrt 2)))\<^sup>2 + (cmod ((a - b) / complex_of_real (sqrt 2)))\<^sup>2
     = (cmod a)\<^sup>2 + (cmod b)\<^sup>2"
proof -
  have "(cmod ((a + b) / complex_of_real (sqrt 2)))\<^sup>2 = (cmod (a + b))\<^sup>2 / 2"
    by (simp add: norm_divide power_divide)
  moreover have "(cmod ((a - b) / complex_of_real (sqrt 2)))\<^sup>2 = (cmod (a - b))\<^sup>2 / 2"
    by (simp add: norm_divide power_divide)
  moreover have "(cmod (a + b))\<^sup>2 + (cmod (a - b))\<^sup>2 = 2 * ((cmod a)\<^sup>2 + (cmod b)\<^sup>2)"
    unfolding cmod_power2 by (simp add: power2_eq_square algebra_simps)
  ultimately show ?thesis by simp
qed

lemma rotation_pair:
  fixes c s :: real
  assumes "c\<^sup>2 + s\<^sup>2 = 1"
  shows "(cmod (complex_of_real c * a - complex_of_real s * b))\<^sup>2
       + (cmod (complex_of_real s * a + complex_of_real c * b))\<^sup>2
       = (cmod a)\<^sup>2 + (cmod b)\<^sup>2"
proof -
  have "(cmod (complex_of_real c * a - complex_of_real s * b))\<^sup>2
       + (cmod (complex_of_real s * a + complex_of_real c * b))\<^sup>2
       = (c\<^sup>2 + s\<^sup>2) * ((cmod a)\<^sup>2 + (cmod b)\<^sup>2)"
    unfolding cmod_power2 by (simp add: power2_eq_square algebra_simps)
  then show ?thesis using assms by simp
qed

lemma weight_x_op:
  assumes "\<And>k. flip_bit q k \<in> S \<longleftrightarrow> k \<in> S"
  shows "weight (x_op q \<psi>) S = weight \<psi> S"
  unfolding weight_def x_op_def
  by (rule sum_flip [where f = "\<lambda>k. (cmod (\<psi> k))\<^sup>2"]) (rule assms)

lemma weight_cx_op:
  assumes "\<And>k. flip_bit t k \<in> S \<longleftrightarrow> k \<in> S" and "c \<noteq> t"
  shows "weight (cx_op c t \<psi>) S = weight \<psi> S"
proof -
  have "weight (cx_op c t \<psi>) S
      = (\<Sum>k\<in>S. (\<lambda>k. (cmod (\<psi> k))\<^sup>2) (if bit k c then flip_bit t k else k))"
    unfolding weight_def cx_op_def by (rule sum.cong) auto
  also have "\<dots> = weight \<psi> S"
    unfolding weight_def
    by (rule sum_cond_flip) (use assms in \<open>auto simp: bit_flip_bit_iff\<close>)
  finally show ?thesis .
qed

lemma weight_ccx_op:
  assumes "\<And>k. flip_bit t k \<in> S \<longleftrightarrow> k \<in> S" and "c1 \<noteq> t" and "c2 \<noteq> t"
  shows "weight (ccx_op c1 c2 t \<psi>) S = weight \<psi> S"
proof -
  have "weight (ccx_op c1 c2 t \<psi>) S
      = (\<Sum>k\<in>S. (\<lambda>k. (cmod (\<psi> k))\<^sup>2) (if bit k c1 \<and> bit k c2 then flip_bit t k else k))"
    unfolding weight_def ccx_op_def by (rule sum.cong) auto
  also have "\<dots> = weight \<psi> S"
    unfolding weight_def
    by (rule sum_cond_flip) (use assms in \<open>auto simp: bit_flip_bit_iff\<close>)
  finally show ?thesis .
qed

lemma weight_mcx_op:
  assumes "\<And>k. flip_bit t k \<in> S \<longleftrightarrow> k \<in> S" and "t \<notin> set cs"
  shows "weight (mcx_op cs t \<psi>) S = weight \<psi> S"
proof -
  have "weight (mcx_op cs t \<psi>) S
      = (\<Sum>k\<in>S. (\<lambda>k. (cmod (\<psi> k))\<^sup>2) (if \<forall>c\<in>set cs. bit k c then flip_bit t k else k))"
    unfolding weight_def mcx_op_def by (rule sum.cong) auto
  also have "\<dots> = weight \<psi> S"
    unfolding weight_def
    by (rule sum_cond_flip) (use assms in \<open>auto simp: bit_flip_bit_iff\<close>)
  finally show ?thesis .
qed

lemma weight_p_op: "weight (p_op \<theta> q \<psi>) S = weight \<psi> S"
  unfolding weight_def p_op_def by (rule sum.cong) (auto simp: norm_mult)

lemma weight_cp_op: "weight (cp_op \<theta> c t \<psi>) S = weight \<psi> S"
  unfolding weight_def cp_op_def by (rule sum.cong) (auto simp: norm_mult)

lemma weight_h_op:
  assumes fin: "finite S" and cl: "\<And>k. flip_bit q k \<in> S \<longleftrightarrow> k \<in> S"
  shows "weight (h_op q \<psi>) S = weight \<psi> S"
proof -
  let ?g = "\<lambda>k. (cmod (h_op q \<psi> k))\<^sup>2" and ?f = "\<lambda>k. (cmod (\<psi> k))\<^sup>2"
  have "weight (h_op q \<psi>) S = (\<Sum>k\<in>{k\<in>S. \<not> bit k q}. ?g k + ?g (set_bit q k))"
    unfolding weight_def by (rule sum_pairs [OF fin cl])
  also have "\<dots> = (\<Sum>k\<in>{k\<in>S. \<not> bit k q}. ?f k + ?f (set_bit q k))"
  proof (rule sum.cong [OF refl])
    fix k assume "k \<in> {k\<in>S. \<not> bit k q}"
    then have nb: "\<not> bit k q" by simp
    have "h_op q \<psi> k = (\<psi> k + \<psi> (set_bit q k)) / complex_of_real (sqrt 2)"
      using nb by (simp add: h_op_def unset_bit_id)
    moreover have "h_op q \<psi> (set_bit q k) = (\<psi> k - \<psi> (set_bit q k)) / complex_of_real (sqrt 2)"
      using nb by (simp add: h_op_def unset_bit_id bit_set_bit_iff)
    ultimately show "?g k + ?g (set_bit q k) = ?f k + ?f (set_bit q k)"
      by (simp only: hadamard_pair)
  qed
  also have "\<dots> = weight \<psi> S"
    unfolding weight_def by (rule sum_pairs [OF fin cl, symmetric])
  finally show ?thesis .
qed

lemma weight_cry_op:
  assumes fin: "finite S" and cl: "\<And>k. flip_bit t k \<in> S \<longleftrightarrow> k \<in> S" and ct: "c \<noteq> t"
  shows "weight (cry_op \<theta> c t \<psi>) S = weight \<psi> S"
proof -
  let ?g = "\<lambda>k. (cmod (cry_op \<theta> c t \<psi> k))\<^sup>2" and ?f = "\<lambda>k. (cmod (\<psi> k))\<^sup>2"
  have cs: "(cos (\<theta> / 2))\<^sup>2 + (sin (\<theta> / 2))\<^sup>2 = 1" by simp
  have "weight (cry_op \<theta> c t \<psi>) S = (\<Sum>k\<in>{k\<in>S. \<not> bit k t}. ?g k + ?g (set_bit t k))"
    unfolding weight_def by (rule sum_pairs [OF fin cl])
  also have "\<dots> = (\<Sum>k\<in>{k\<in>S. \<not> bit k t}. ?f k + ?f (set_bit t k))"
  proof (rule sum.cong [OF refl])
    fix k assume "k \<in> {k\<in>S. \<not> bit k t}"
    then have nb: "\<not> bit k t" by simp
    show "?g k + ?g (set_bit t k) = ?f k + ?f (set_bit t k)"
    proof (cases "bit k c")
      case True
      have "cry_op \<theta> c t \<psi> k
          = complex_of_real (cos (\<theta> / 2)) * \<psi> k - complex_of_real (sin (\<theta> / 2)) * \<psi> (set_bit t k)"
        using nb True by (simp add: cry_op_def)
      moreover have "cry_op \<theta> c t \<psi> (set_bit t k)
          = complex_of_real (sin (\<theta> / 2)) * \<psi> k + complex_of_real (cos (\<theta> / 2)) * \<psi> (set_bit t k)"
        using nb True ct by (simp add: cry_op_def unset_bit_id bit_set_bit_iff)
      ultimately show ?thesis by (simp only: rotation_pair [OF cs])
    next
      case False
      then show ?thesis using ct by (simp add: cry_op_def bit_set_bit_iff)
    qed
  qed
  also have "\<dots> = weight \<psi> S"
    unfolding weight_def by (rule sum_pairs [OF fin cl, symmetric])
  finally show ?thesis .
qed

lemma weight_gate_op:
  assumes "gate_op n g = Some f" and "finite S"
    and "\<And>k. flip_bit (target g) k \<in> S \<longleftrightarrow> k \<in> S"
  shows "weight (f \<psi>) S = weight \<psi> S"
proof (cases g)
  case (XGate q)
  then show ?thesis using assms by (auto split: if_splits intro: weight_x_op)
next
  case (HGate q)
  then show ?thesis using assms by (auto split: if_splits intro: weight_h_op)
next
  case (PhaseGate \<theta> q)
  then show ?thesis using assms by (auto split: if_splits intro: weight_p_op)
next
  case (CXGate c t)
  then show ?thesis using assms by (auto split: if_splits intro: weight_cx_op)
next
  case (CCXGate c1 c2 t)
  then show ?thesis using assms by (auto split: if_splits intro: weight_ccx_op)
next
  case (MCXGate cs t)
  then show ?thesis using assms by (auto split: if_splits intro: weight_mcx_op)
next
  case (CRYGate a c t)
  then show ?thesis using assms by (auto split: if_splits npfloat.splits intro: weight_cry_op)
next
  case (CPhaseGate \<theta> c t)
  then show ?thesis using assms by (auto split: if_splits intro: weight_cp_op)
qed

lemma gate_op_target_lt: "gate_op n g = Some f \<Longrightarrow> target g < n"
  by (cases g) (auto split: if_splits npfloat.splits)

lemma norm2_weight: "norm2 n \<psi> = weight \<psi> {..<2 ^ n}"
  by (simp add: norm2_def weight_def)

lemma norm2_gate_op:
  assumes "gate_op n g = Some f"
  shows "norm2 n (f \<psi>) = norm2 n \<psi>"
  unfolding norm2_weight
  by (rule weight_gate_op [OF assms]) (use gate_op_target_lt [OF assms] in auto)

lemma norm2_statevector:
  "statevector n gs \<psi> = Some \<phi> \<Longrightarrow> norm2 n \<phi> = norm2 n \<psi>"
  by (induction gs arbitrary: \<psi>) (auto split: option.splits simp: norm2_gate_op)

lemma pauli_loop_eq:
  "pauli_loop qc qubits idx s =
     (if \<forall>j\<in>set (ones s idx). j < length qubits
      then Inr (qc @ map (\<lambda>j. XGate (qubits ! j)) (ones s idx))
      else Inl IndexError)"
  by (induction s arbitrary: qc idx) (auto simp: getitem_def)

lemma set_ones: "set (ones s idx) = {idx + j | j. j < length s \<and> s ! j = CHR ''1''}"
proof (induction s arbitrary: idx)
  case Nil
  then show ?case by simp
next
  case (Cons b rest)
  have "{idx + j | j. j < length (b # rest) \<and> (b # rest) ! j = CHR ''1''}
      = (if b = CHR ''1'' then {idx} else {})
        \<union> {Suc idx + j | j. j < length rest \<and> rest ! j = CHR ''1''}"
  proof (rule set_eqI, rule iffI)
    fix x assume "x \<in> {idx + j | j. j < length (b # rest) \<and> (b # rest) ! j = CHR ''1''}"
    then obtain j where j: "x = idx + j" "j < length (b # rest)" "(b # rest) ! j = CHR ''1''"
      by blast
    show "x \<in> (if b = CHR ''1'' then {idx} else {})
        \<union> {Suc idx + j | j. j < length rest \<and> rest ! j = CHR ''1''}"
    proof (cases j)
      case 0
      then show ?thesis using j by simp
    next
      case (Suc j')
      then have "x = Suc idx + j' \<and> j' < length rest \<and> rest ! j' = CHR ''1''"
        using j by simp
      then show ?thesis by blast
    qed
  next
    fix x assume "x \<in> (if b = CHR ''1'' then {idx} else {})
        \<union> {Suc idx + j | j. j < length rest \<and> rest ! j = CHR ''1''}"
    then consider "b = CHR ''1''" "x = idx"
      | j where "x = Suc idx + j" "j < length rest" "rest ! j = CHR ''1''"
      by (auto split: if_splits)
    then show "x \<in> {idx + j | j. j < length (b # rest) \<and> (b # rest) ! j = CHR ''1''}"
    proof cases
      case 1
      then have "x = idx + 0 \<and> 0 < length (b # rest) \<and> (b # rest) ! 0 = CHR ''1''" by simp
      then show ?thesis by blast
    next
      case 2
      then have "x = idx + Suc j \<and> Suc j < length (b # rest) \<and> (b # rest) ! Suc j = CHR ''1''"
        by simp
      then show ?thesis by blast
    qed
  qed
  then show ?case using Cons.IH [of "Suc idx"] by auto
qed

lemma ones_ge: "j \<in> set (ones s idx) \<Longrightarrow> idx \<le> j"
  by (auto simp: set_ones)

lemma distinct_ones: "distinct (ones s idx)"
proof (induction s arbitrary: idx)
  case Nil
  then show ?case by simp
next
  case (Cons b rest)
  have "idx \<notin> set (ones rest (Suc idx))" using ones_ge [of idx rest "Suc idx"] by auto
  then show ?case using Cons.IH by simp
qed

lemma bin_digits_0: "bin_digits 0 = [CHR ''0'']"
  by (simp add: bin_digits.simps [of 0])

lemma bin_digits_1: "bin_digits (Suc 0) = [CHR ''1'']"
  by (simp add: bin_digits.simps [of "Suc 0"])

lemma bin_digits_rec:
  "\<not> n < 2 \<Longrightarrow> bin_digits n = bin_digits (n div 2) @ [digit (odd n)]"
  by (subst bin_digits.simps) (simp add: digit_def odd_iff_mod_2_eq_one)

lemma rev_bin_digits: "rev (bin_digits n) = map (\<lambda>j. digit (bit n j)) [0..<length (bin_digits n)]"
proof (induction n rule: bin_digits.induct)
  case (1 n)
  show ?case
  proof (cases "n < 2")
    case True
    then have "n = 0 \<or> n = Suc 0" by auto
    then show ?thesis by (auto simp: bin_digits_0 bin_digits_1 digit_def bit_Suc_0_iff)
  next
    case False
    let ?r = "bin_digits (n div 2)"
    have IH: "rev ?r = map (\<lambda>j. digit (bit (n div 2) j)) [0..<length ?r]"
      using 1 False by simp
    have eq: "bin_digits n = ?r @ [digit (odd n)]"
      using False by (rule bin_digits_rec)
    have "rev (bin_digits n) = digit (bit n 0) # map (\<lambda>j. digit (bit n (Suc j))) [0..<length ?r]"
      using IH by (simp add: eq bit_0 bit_Suc)
    also have "\<dots> = map (\<lambda>j. digit (bit n j)) (0 # map Suc [0..<length ?r])"
      by (simp add: comp_def)
    also have "0 # map Suc [0..<length ?r] = [0..<Suc (length ?r)]"
      by (simp add: upt_conv_Cons map_Suc_upt del: upt_Suc)
    finally show ?thesis by (simp add: eq)
  qed
qed

lemma bin_digits_top: "bit n j \<Longrightarrow> j < length (bin_digits n)"
proof (induction n arbitrary: j rule: bin_digits.induct)
  case (1 n)
  show ?case
  proof (cases "n < 2")
    case True
    then have "n = 0 \<or> n = Suc 0" by auto
    then show ?thesis using 1(2) by (auto simp: bin_digits_0 bin_digits_1 bit_Suc_0_iff)
  next
    case False
    show ?thesis
    proof (cases j)
      case 0
      then show ?thesis using False by (simp add: bin_digits_rec)
    next
      case (Suc j')
      then have "bit (n div 2) j'" using 1(2) by (simp add: bit_Suc)
      then have "j' < length (bin_digits (n div 2))" using 1(1) False by simp
      then show ?thesis using Suc False by (simp add: bin_digits_rec)
    qed
  qed
qed

lemma set_ones_rev_digits:
  "set (ones (rev (zero_fill w (bin_digits n))) 0) = {j. bit n j}"
proof -
  let ?d = "bin_digits n"
  have r: "rev (zero_fill w ?d)
         = map (\<lambda>j. digit (bit n j)) [0..<length ?d] @ replicate (w - length ?d) (CHR ''0'')"
    by (simp add: zero_fill_def rev_bin_digits [symmetric])
  show ?thesis
  proof (rule set_eqI)
    fix j
    show "j \<in> set (ones (rev (zero_fill w ?d)) 0) \<longleftrightarrow> j \<in> {j. bit n j}"
      unfolding set_ones r using bin_digits_top [of n j]
      by (auto simp: nth_append digit_def split: if_splits)
  qed
qed

lemma ones_snoc_other: "c \<noteq> CHR ''1'' \<Longrightarrow> ones (s @ [c]) idx = ones s idx"
  by (induction s arbitrary: idx) auto

lemma set_ones_format_b:
  "set (ones (rev (format_b v w)) 0) = {j. bit (nat \<bar>v\<bar>) j}"
proof (cases "v < 0")
  case True
  then have "nat \<bar>v\<bar> = nat (- v)" by simp
  then show ?thesis using True
    by (simp add: format_b_def ones_snoc_other set_ones_rev_digits)
next
  case False
  then have "nat \<bar>v\<bar> = nat v" by simp
  then show ?thesis using False by (simp add: format_b_def set_ones_rev_digits)
qed

lemma fits_iff: "(\<forall>j. bit (nat \<bar>v\<bar>) j \<longrightarrow> j < w) \<longleftrightarrow> \<bar>v\<bar> < 2 ^ w"
proof -
  have "\<bar>v\<bar> < 2 ^ w \<longleftrightarrow> nat \<bar>v\<bar> < 2 ^ w"
    by (metis abs_ge_zero nat_less_iff of_nat_numeral of_nat_power)
  then show ?thesis by (simp add: lt_pow2_iff_bits)
qed

lemma apply_pauli_from_int_eq:
  "apply_pauli_from_int qc v qubits =
     (if \<bar>v\<bar> < 2 ^ length qubits
      then Inr (qc @ map XGate (pauli_qubits v qubits))
      else Inl IndexError)"
  unfolding apply_pauli_from_int_def pauli_loop_eq set_ones_format_b pauli_qubits_def
  using fits_iff [of v "length qubits"] by (simp add: comp_def)

lemma set_pauli_qubits:
  "\<bar>v\<bar> < 2 ^ length qubits \<Longrightarrow>
   set (pauli_qubits v qubits) = {qubits ! j | j. j < length qubits \<and> bit (nat \<bar>v\<bar>) j}"
  unfolding pauli_qubits_def set_map set_ones_format_b
  using fits_iff [of v "length qubits"] by auto

lemma distinct_pauli_qubits:
  assumes "\<bar>v\<bar> < 2 ^ length qubits" and "distinct qubits"
  shows "distinct (pauli_qubits v qubits)"
proof -
  let ?os = "ones (rev (format_b v (length qubits))) 0"
  have "\<forall>j\<in>set ?os. j < length qubits"
    unfolding set_ones_format_b using assms(1) fits_iff [of v "length qubits"] by simp
  then have "inj_on (\<lambda>j. qubits ! j) (set ?os)"
    using assms(2) by (auto simp: inj_on_def nth_eq_iff_index_eq)
  then show ?thesis unfolding pauli_qubits_def by (simp add: distinct_map distinct_ones)
qed

lemma gates_ok_simps [simp]:
  "gates_ok n []"
  "gates_ok n (g # gs) \<longleftrightarrow> gate_op n g \<noteq> None \<and> gates_ok n gs"
  "gates_ok n (gs @ hs) \<longleftrightarrow> gates_ok n gs \<and> gates_ok n hs"
  "gates_ok n (rev gs) \<longleftrightarrow> gates_ok n gs"
  by (auto simp: gates_ok_def)

lemma gates_ok_concat: "gates_ok n (concat gss) \<longleftrightarrow> (\<forall>gs\<in>set gss. gates_ok n gs)"
  by (auto simp: gates_ok_def)

lemma fwd_append [simp]: "fwd (gs @ hs) k = fwd hs (fwd gs k)"
  by (induction gs arbitrary: k) auto

lemma phases_append: "phases (gs @ hs) k = phases hs k * phases gs (fwd (rev hs) k)"
  by (induction gs) (auto simp: algebra_simps)

lemma gate_op_monomial:
  assumes "monomial g" and "gate_op n g = Some f"
  shows "f \<psi> = (\<lambda>k. phase_of g k * \<psi> (perm_of g k))"
proof (cases g)
  case (XGate q)
  then have "f = x_op q" using assms(2) by (simp split: if_splits)
  then show ?thesis using XGate by (simp add: x_op_def)
next
  case (HGate q)
  then show ?thesis using assms(1) by simp
next
  case (PhaseGate \<theta> q)
  then have "f = p_op \<theta> q" using assms(2) by (simp split: if_splits)
  then show ?thesis using PhaseGate by (auto simp: p_op_def)
next
  case (CXGate c t)
  then have "f = cx_op c t" using assms(2) by (simp split: if_splits)
  then show ?thesis using CXGate by (auto simp: cx_op_def)
next
  case (CCXGate c1 c2 t)
  then have "f = ccx_op c1 c2 t" using assms(2) by (simp split: if_splits)
  then show ?thesis using CCXGate by (auto simp: ccx_op_def)
next
  case (MCXGate cs t)
  then have "f = mcx_op cs t" using assms(2) by (simp split: if_splits)
  then show ?thesis using MCXGate by (auto simp: mcx_op_def)
next
  case (CRYGate a c t)
  then show ?thesis using assms(1) by simp
next
  case (CPhaseGate \<theta> c t)
  then have "f = cp_op \<theta> c t" using assms(2) by (simp split: if_splits)
  then show ?thesis using CPhaseGate by (auto simp: cp_op_def)
qed

lemma statevector_monomial:
  "\<forall>g\<in>set gs. monomial g \<Longrightarrow> gates_ok n gs \<Longrightarrow>
   statevector n gs \<psi> = Some (\<lambda>k. phases gs k * \<psi> (fwd (rev gs) k))"
proof (induction gs arbitrary: \<psi>)
  case Nil
  then show ?case by simp
next
  case (Cons g gs)
  then obtain f where f: "gate_op n g = Some f" by auto
  have mono: "monomial g" using Cons.prems by simp
  have "statevector n (g # gs) \<psi> = statevector n gs (f \<psi>)" by (simp add: f)
  also have "\<dots> = Some (\<lambda>k. phases gs k * (f \<psi>) (fwd (rev gs) k))"
    using Cons by simp
  also have "\<dots> = Some (\<lambda>k. phases (g # gs) k * \<psi> (fwd (rev (g # gs)) k))"
    by (simp add: gate_op_monomial [OF mono f] algebra_simps)
  finally show ?case .
qed

lemma statevector_ok: "gates_ok n gs \<Longrightarrow> \<exists>\<phi>. statevector n gs \<psi> = Some \<phi>"
  by (induction gs arbitrary: \<psi>) auto

lemma perm_of_invol: "gate_op n g = Some f \<Longrightarrow> perm_of g (perm_of g k) = k"
  by (cases g) (auto simp: bit_flip_bit_iff split: if_splits)

lemma fwd_rev_fwd: "gates_ok n gs \<Longrightarrow> fwd (rev gs) (fwd gs k) = k"
  by (induction gs arbitrary: k) (auto simp: perm_of_invol)

lemma fwd_fwd_rev: "gates_ok n gs \<Longrightarrow> fwd gs (fwd (rev gs) k) = k"
  using fwd_rev_fwd [of n "rev gs" k] by simp

lemma bit_perm_of_other: "q \<noteq> target g \<Longrightarrow> bit (perm_of g k) q = bit k q"
  by (cases g) (auto simp: bit_flip_bit_iff)

lemma bit_fwd_other: "q \<notin> target ` set gs \<Longrightarrow> bit (fwd gs k) q = bit k q"
  by (induction gs arbitrary: k) (auto simp: bit_perm_of_other)

lemma perm_of_cases: "perm_of g k = k \<or> perm_of g k = flip_bit (target g) k"
  by (cases g) simp_all

lemma perm_of_lt:
  assumes "gate_op n g = Some f"
  shows "perm_of g k < 2 ^ n \<longleftrightarrow> k < 2 ^ n"
proof -
  have "target g < n" using assms by (rule gate_op_target_lt)
  then have "flip_bit (target g) k < 2 ^ n \<longleftrightarrow> k < 2 ^ n" by simp
  then show ?thesis using perm_of_cases [of g k] by auto
qed

lemma fwd_lt: "gates_ok n gs \<Longrightarrow> fwd gs k < 2 ^ n \<longleftrightarrow> k < 2 ^ n"
proof (induction gs arbitrary: k)
  case Nil
  then show ?case by simp
next
  case (Cons g gs)
  then obtain f where f: "gate_op n g = Some f" by auto
  have "fwd (g # gs) k < 2 ^ n \<longleftrightarrow> perm_of g k < 2 ^ n" using Cons by simp
  then show ?case by (simp only: perm_of_lt [OF f])
qed

lemma cmod_phase_of [simp]: "cmod (phase_of g k) = 1"
  by (cases g) auto

lemma cmod_phases [simp]: "cmod (phases gs k) = 1"
  by (induction gs) (auto simp: norm_mult)

lemma phases_no_phase: "\<forall>g\<in>set gs. \<forall>k. phase_of g k = 1 \<Longrightarrow> phases gs k = 1"
  by (induction gs) auto

subsection \<open>Bit flips on a list of qubits\<close>

lemma bit_fwd_x:
  "distinct qs \<Longrightarrow> bit (fwd (map XGate qs) k) q = (bit k q \<noteq> (q \<in> set qs))"
proof (induction qs arbitrary: k)
  case Nil
  then show ?case by simp
next
  case (Cons a qs)
  then show ?case by (auto simp: bit_flip_bit_iff)
qed

lemma fwd_x_rev: "distinct qs \<Longrightarrow> fwd (map XGate (rev qs)) k = fwd (map XGate qs) k"
  by (rule bit_eqI) (simp add: bit_fwd_x)

lemma fwd_x_twice: "distinct qs \<Longrightarrow> fwd (map XGate qs) (fwd (map XGate qs) k) = k"
  by (rule bit_eqI) (auto simp: bit_fwd_x)

lemma ccx_loop_eq:
  "\<forall>j\<in>set js. j < length p \<and> j < length m \<Longrightarrow> 1 < length u \<Longrightarrow>
   ccx_loop qc p u m js = Inr (qc @ ccx_gates p u m js)"
  by (induction js arbitrary: qc) (simp_all add: ccx_gates_def getitem_def)

lemma cx_x_loop_eq:
  "\<forall>j\<in>set js. j < length p \<and> j < length m \<Longrightarrow>
   cx_x_loop qc p m js = Inr (qc @ cx_x_gates p m js)"
  by (induction js arbitrary: qc) (simp_all add: cx_x_gates_def getitem_def)

lemma x_cx_loop_eq:
  "\<forall>j\<in>set js. j < length p \<and> j < length m \<Longrightarrow>
   x_cx_loop qc p m js = Inr (qc @ x_cx_gates p m js)"
  by (induction js arbitrary: qc) (simp_all add: x_cx_gates_def getitem_def)

lemma controlled_si_eq:
  assumes "idx < len_ps" and "1 < length u"
  shows "controlled_si qc p u (int idx + 1) (int len_ps)
       = Inr (qc @ [CRYGate (Num (step_angle len_ps idx)) (u ! 0) (u ! 1)])"
proof -
  have j: "1 \<le> int len_ps + 1 - (int idx + 1)" using assms(1) by simp
  have "int len_ps + 1 - (int idx + 1) = int len_ps - int idx" by simp
  then have "find_angle (int len_ps + 1 - (int idx + 1)) = Inr (Num (step_angle len_ps idx))"
    using find_angle_pos [OF j] by (simp add: step_angle_def)
  moreover have "u \<noteq> []" using assms(2) by auto
  ultimately show ?thesis using assms(2) by (simp add: controlled_si_def getitem_def)
qed

lemma storage_body_eq:
  assumes "\<bar>val\<bar> < 2 ^ length p" and "length p \<le> length m" and "1 < length u"
    and "idx < len_ps"
  shows "storage_body qc len_ps p u m idx val
       = Inr (qc @ body_gates (Num (step_angle len_ps idx)) p u m val)"
proof -
  have js: "\<forall>j\<in>set [0..<length p]. j < length p \<and> j < length m"
    and rjs: "\<forall>j\<in>set (rev [0..<length p]). j < length p \<and> j < length m"
    using assms(2) by auto
  have "u \<noteq> []" using assms(3) by auto
  then have u0: "getitem u 0 = Inr (u ! 0)" by (simp add: getitem_def)
  show ?thesis
    unfolding storage_body_def
    by (simp add: apply_pauli_from_int_eq assms(1) ccx_loop_eq [OF js assms(3)]
        ccx_loop_eq [OF rjs assms(3)] cx_x_loop_eq [OF js] x_cx_loop_eq [OF rjs] u0
        controlled_si_eq [OF assms(4) assms(3)] body_gates_def compute_gates_def
        uncompute_gates_def)
qed

lemma storage_loop_eq:
  assumes "\<forall>val\<in>set vals. \<bar>val\<bar> < 2 ^ length p" and "length p \<le> length m"
    and "1 < length u" and "idx + length vals \<le> len_ps"
  shows "storage_loop qc len_ps p u m idx vals
       = Inr (qc @ storage_gates len_ps p u m idx vals)"
  using assms(1,4)
proof (induction vals arbitrary: qc idx)
  case Nil
  then show ?case by simp
next
  case (Cons val rest)
  have "idx < len_ps" using Cons.prems(2) by simp
  then have "storage_body qc len_ps p u m idx val
       = Inr (qc @ body_gates (Num (step_angle len_ps idx)) p u m val)"
    using Cons.prems(1) assms(2,3) by (simp add: storage_body_eq)
  moreover have "storage_loop (qc @ body_gates (Num (step_angle len_ps idx)) p u m val)
        len_ps p u m (Suc idx) rest
      = Inr ((qc @ body_gates (Num (step_angle len_ps idx)) p u m val)
             @ storage_gates len_ps p u m (Suc idx) rest)"
    using Cons.prems by (intro Cons.IH) auto
  ultimately show ?case by simp
qed

lemma storage_algorithm_eq:
  assumes "\<forall>val\<in>set ps. \<bar>val\<bar> < 2 ^ length p" and "length p \<le> length m"
    and "1 < length u"
  shows "storage_algorithm qc ps p u m = Inr (qc @ storage_gates (length ps) p u m 0 ps)"
  unfolding storage_algorithm_def by (rule storage_loop_eq) (use assms in auto)

lemma retrieval_algorithm_eq:
  assumes "length i \<le> length m"
  shows "retrieval_algorithm qc i m c = Inr (qc @ retrieval_gates i m c)"
proof -
  have js: "\<forall>j\<in>set [0..<length i]. j < length i \<and> j < length m"
    and rjs: "\<forall>j\<in>set (rev [0..<length i]). j < length i \<and> j < length m"
    using assms by auto
  show ?thesis
    unfolding retrieval_algorithm_def
    by (simp add: cx_x_loop_eq [OF js] x_cx_loop_eq [OF rjs] apply_u_and_cu_eq
        retrieval_gates_def)
qed

lemma h_loop_eq: "h_loop qc qs = qc @ map HGate qs"
  by (induction qs arbitrary: qc) simp_all

lemma rev_cx_x_gates: "rev (cx_x_gates p m js) = x_cx_gates p m (rev js)"
  by (induction js) (simp_all add: cx_x_gates_def x_cx_gates_def)

lemma rev_ccx_gates: "rev (ccx_gates p u m js) = ccx_gates p u m (rev js)"
  by (simp add: ccx_gates_def rev_map)

lemma gates_ok_map: "gates_ok n (map f xs) \<longleftrightarrow> (\<forall>x\<in>set xs. gate_op n (f x) \<noteq> None)"
  by (auto simp: gates_ok_def)

lemma gates_ok_x: "\<forall>q\<in>set qs. q < n \<Longrightarrow> gates_ok n (map XGate qs)"
  by (simp add: gates_ok_map)

lemma set_pauli_qubits_subset: "\<bar>v\<bar> < 2 ^ length qubits \<Longrightarrow> set (pauli_qubits v qubits) \<subseteq> set qubits"
  by (auto simp: set_pauli_qubits)

lemma gates_ok_pauli:
  "\<bar>v\<bar> < 2 ^ length qubits \<Longrightarrow> \<forall>q\<in>set qubits. q < n \<Longrightarrow>
   gates_ok n (map XGate (pauli_qubits v qubits))"
  using set_pauli_qubits_subset [of v qubits] by (intro gates_ok_x) auto

lemma gates_ok_ccx:
  assumes "\<forall>j\<in>set js. j < length p \<and> j < length m" and "1 < length u"
    and "distinct (p @ u @ m)" and "\<forall>q\<in>set (p @ u @ m). q < n"
  shows "gates_ok n (ccx_gates p u m js)"
proof -
  have u1: "u ! 1 \<in> set u" using assms(2) by simp
  {
    fix j assume "j \<in> set js"
    then have j: "j < length p" "j < length m" using assms(1) by auto
    then have "p ! j \<in> set p" "m ! j \<in> set m" by simp_all
    then have "gate_op n (CCXGate (p ! j) (u ! 1) (m ! j)) \<noteq> None"
      using u1 assms(3,4) by auto
  }
  then show ?thesis by (simp add: ccx_gates_def gates_ok_map)
qed

lemma gates_ok_cx_x:
  assumes "\<forall>j\<in>set js. j < length p \<and> j < length m"
    and "set p \<inter> set m = {}" and "\<forall>q\<in>set p \<union> set m. q < n"
  shows "gates_ok n (cx_x_gates p m js)"
proof -
  {
    fix j assume "j \<in> set js"
    then have j: "j < length p" "j < length m" using assms(1) by auto
    then have "p ! j \<in> set p" "m ! j \<in> set m" by simp_all
    then have "gates_ok n [CXGate (p ! j) (m ! j), XGate (m ! j)]"
      using assms(2,3) by auto
  }
  then show ?thesis by (simp add: cx_x_gates_def gates_ok_concat)
qed

lemma gates_ok_x_cx:
  assumes "\<forall>j\<in>set js. j < length p \<and> j < length m"
    and "set p \<inter> set m = {}" and "\<forall>q\<in>set p \<union> set m. q < n"
  shows "gates_ok n (x_cx_gates p m js)"
proof -
  have "gates_ok n (rev (cx_x_gates p m (rev js)))"
    using gates_ok_cx_x [of "rev js" p m n] assms by simp
  then show ?thesis by (simp add: rev_cx_x_gates)
qed

lemma storage_regs_D:
  assumes "storage_regs n p u m"
  shows "distinct p" "distinct m" "distinct u" "set p \<inter> set m = {}" "set p \<inter> set u = {}"
    "set u \<inter> set m = {}" "\<forall>q\<in>set p. q < n" "\<forall>q\<in>set m. q < n" "\<forall>q\<in>set u. q < n"
    "length u = 2" "length m = length p" "u ! 0 \<in> set u" "u ! 1 \<in> set u" "u ! 0 \<noteq> u ! 1"
    "u ! 0 \<notin> set m" "u ! 1 \<notin> set m" "u ! 0 \<notin> set p" "u ! 1 \<notin> set p"
    "u ! 0 < n" "u ! 1 < n"
proof -
  have u: "length u = 2" "u ! 0 \<in> set u" "u ! 1 \<in> set u"
    using assms by (auto simp: storage_regs_def)
  show "distinct p" "distinct m" "distinct u" "set p \<inter> set m = {}" "set p \<inter> set u = {}"
    "set u \<inter> set m = {}" "\<forall>q\<in>set p. q < n" "\<forall>q\<in>set m. q < n" "\<forall>q\<in>set u. q < n"
    "length u = 2" "length m = length p" "u ! 0 \<in> set u" "u ! 1 \<in> set u"
    using assms u by (auto simp: storage_regs_def list_all_iff)
  show "u ! 0 \<noteq> u ! 1"
    using assms u(1) by (auto simp: storage_regs_def nth_eq_iff_index_eq)
  have disj: "set u \<inter> set m = {}" "set p \<inter> set u = {}" "\<forall>q\<in>set u. q < n"
    using assms by (auto simp: storage_regs_def list_all_iff)
  show "u ! 0 \<notin> set m" "u ! 1 \<notin> set m" "u ! 0 \<notin> set p" "u ! 1 \<notin> set p"
    using u(2,3) disj(1,2) by blast+
  show "u ! 0 < n" "u ! 1 < n"
    using u(2,3) disj(3) by blast+
qed

lemma gates_ok_compute:
  assumes r: "storage_regs n p u m" and v: "\<bar>val\<bar> < 2 ^ length p"
  shows "gates_ok n (compute_gates p u m val)"
proof -
  note d = storage_regs_D [OF r]
  have js: "\<forall>j\<in>set [0..<length p]. j < length p \<and> j < length m" using d(11) by simp
  have a: "gates_ok n (map XGate (pauli_qubits val p))" using v d(7) by (rule gates_ok_pauli)
  have b: "gates_ok n (ccx_gates p u m [0..<length p])"
    using r by (intro gates_ok_ccx js) (auto simp: storage_regs_def list_all_iff)
  have c: "gates_ok n (cx_x_gates p m [0..<length p])"
    using d by (intro gates_ok_cx_x js) auto
  have e: "gate_op n (MCXGate m (u ! 0)) \<noteq> None" using d(2,8,15,19) by simp
  show ?thesis using a b c e by (simp add: compute_gates_def)
qed

lemma gates_ok_uncompute:
  assumes r: "storage_regs n p u m" and v: "\<bar>val\<bar> < 2 ^ length p"
  shows "gates_ok n (uncompute_gates p u m val)"
proof -
  note d = storage_regs_D [OF r]
  have js: "\<forall>j\<in>set (rev [0..<length p]). j < length p \<and> j < length m" using d(11) by simp
  have a: "gates_ok n (map XGate (pauli_qubits val p))" using v d(7) by (rule gates_ok_pauli)
  have b: "gates_ok n (ccx_gates p u m (rev [0..<length p]))"
    using r by (intro gates_ok_ccx js) (auto simp: storage_regs_def list_all_iff)
  have c: "gates_ok n (x_cx_gates p m (rev [0..<length p]))"
    using d by (intro gates_ok_x_cx js) auto
  have e: "gate_op n (MCXGate m (u ! 0)) \<noteq> None" using d(2,8,15,19) by simp
  show ?thesis using a b c e by (simp add: uncompute_gates_def)
qed

lemma gates_ok_body:
  assumes r: "storage_regs n p u m" and v: "\<bar>val\<bar> < 2 ^ length p"
  shows "gates_ok n (body_gates (Num \<theta>) p u m val)"
proof -
  note d = storage_regs_D [OF r]
  have "gate_op n (CRYGate (Num \<theta>) (u ! 0) (u ! 1)) \<noteq> None" using d(14,19,20) by simp
  then show ?thesis
    using gates_ok_compute [OF r v] gates_ok_uncompute [OF r v] by (simp add: body_gates_def)
qed

lemma gates_ok_storage:
  assumes r: "storage_regs n p u m" and v: "\<forall>val\<in>set vals. \<bar>val\<bar> < 2 ^ length p"
  shows "gates_ok n (storage_gates N p u m idx vals)"
  using v by (induction vals arbitrary: idx) (simp_all add: gates_ok_body [OF r])

lemma gates_ok_u_and_cu:
  assumes "c \<notin> set m" and "c < n" and "\<forall>q\<in>set m. q < n"
  shows "gates_ok n (u_and_cu_gates m c)"
  using assms by (auto simp: u_and_cu_gates_def gates_ok_concat)

lemma retrieval_regs_D:
  assumes "retrieval_regs n i m c"
  shows "distinct i" "distinct m" "set i \<inter> set m = {}" "c \<notin> set i" "c \<notin> set m"
    "\<forall>q\<in>set i. q < n" "\<forall>q\<in>set m. q < n" "c < n" "length i \<le> length m"
  using assms by (auto simp: retrieval_regs_def list_all_iff)

lemma gates_ok_retrieval_middle:
  assumes r: "retrieval_regs n i m c"
  shows "gates_ok n (cx_x_gates i m [0..<length i] @ u_and_cu_gates m c
                    @ x_cx_gates i m (rev [0..<length i]))"
proof -
  note d = retrieval_regs_D [OF r]
  have js: "\<forall>j\<in>set [0..<length i]. j < length i \<and> j < length m"
    and rjs: "\<forall>j\<in>set (rev [0..<length i]). j < length i \<and> j < length m"
    using d(9) by auto
  have a: "gates_ok n (cx_x_gates i m [0..<length i])" using d by (intro gates_ok_cx_x js) auto
  have b: "gates_ok n (x_cx_gates i m (rev [0..<length i]))"
    using d by (intro gates_ok_x_cx rjs) auto
  show ?thesis using a b gates_ok_u_and_cu [OF d(5) d(8) d(7)] by simp
qed

lemma gates_ok_retrieval:
  assumes r: "retrieval_regs n i m c"
  shows "gates_ok n (retrieval_gates i m c)"
  using gates_ok_retrieval_middle [OF r] retrieval_regs_D(8) [OF r]
  by (simp add: retrieval_gates_def)

lemma gates_ok_prefix: "gates_ok n gs \<Longrightarrow> prefix hs gs \<Longrightarrow> gates_ok n hs"
  by (auto simp: gates_ok_def prefix_def)

subsection \<open>Encoding twice\<close>

lemma flip_bit_commute: "flip_bit a (flip_bit b (k::nat)) = flip_bit b (flip_bit a k)"
  by (rule bit_eqI) (auto simp: bit_flip_bit_iff)

lemma fwd_x_flip: "fwd (map XGate qs) (flip_bit a k) = flip_bit a (fwd (map XGate qs) k)"
proof (induction qs arbitrary: k)
  case Nil
  then show ?case by simp
next
  case (Cons b qs)
  have "fwd (map XGate (b # qs)) (flip_bit a k) = fwd (map XGate qs) (flip_bit a (flip_bit b k))"
    by (simp add: flip_bit_commute [of b a])
  then show ?case by (simp add: Cons.IH)
qed

lemma fwd_x_x: "fwd (map XGate qs) (fwd (map XGate qs) k) = k"
  by (induction qs arbitrary: k) (simp_all add: fwd_x_flip)

lemma statevector_x_twice:
  assumes "\<forall>q\<in>set qs. q < n"
  shows "statevector n (map XGate qs @ map XGate qs) \<psi> = Some \<psi>"
proof -
  let ?gs = "map XGate qs @ map XGate qs"
  have ok: "gates_ok n ?gs" using gates_ok_x [OF assms] by simp
  have mono: "\<forall>g\<in>set ?gs. monomial g" by auto
  have ph: "\<And>k. phases ?gs k = 1" by (rule phases_no_phase) auto
  have fw: "\<And>k. fwd (rev ?gs) k = k"
    using fwd_x_x [of "rev qs"] by (simp add: rev_map)
  show ?thesis
    by (simp only: statevector_monomial [OF mono ok] ph fw mult_1)
qed

subsection \<open>Every prefix of a well-formed circuit keeps the norm\<close>

lemma norm2_prefix:
  assumes "gates_ok n gs" and "prefix hs gs"
  shows "\<exists>\<phi>. statevector n hs \<psi> = Some \<phi> \<and> norm2 n \<phi> = norm2 n \<psi>"
proof -
  have "gates_ok n hs" using assms by (rule gates_ok_prefix)
  then obtain \<phi> where "statevector n hs \<psi> = Some \<phi>" using statevector_ok by blast
  then show ?thesis using norm2_statevector by blast
qed

lemma norm2_zero_state: "norm2 n zero_state = 1"
proof -
  have "norm2 n zero_state = (\<Sum>k\<in>{..<(2::nat) ^ n}. if k = 0 then (1::real) else 0)"
    unfolding norm2_def zero_state_def by (rule sum.cong) auto
  also have "\<dots> = 1" by (simp add: sum.delta)
  finally show ?thesis .
qed

lemma retrieval_gates_middle:
  "retrieval_gates i m c = [HGate c] @ retrieval_middle i m c @ [HGate c]"
  by (simp add: retrieval_gates_def retrieval_middle_def)

lemma fwd_u_triples:
  "fwd (concat (map (\<lambda>q. [XGate q, PhaseGate \<theta> q, XGate q]) qs)) k = k"
  by (induction qs arbitrary: k) simp_all

lemma fwd_cu_triples:
  "c \<notin> set qs \<Longrightarrow>
   fwd (concat (map (\<lambda>q. [CXGate c q, CPhaseGate \<theta> c q, CXGate c q]) qs)) k = k"
  by (induction qs arbitrary: k) (auto simp: bit_flip_bit_iff)

lemma fwd_u_and_cu: "c \<notin> set m \<Longrightarrow> fwd (u_and_cu_gates m c) k = k"
  by (simp add: u_and_cu_gates_def fwd_u_triples fwd_cu_triples)

lemma fwd_rev_u_and_cu:
  assumes "c \<notin> set m" and "c < n" and "\<forall>q\<in>set m. q < n"
  shows "fwd (rev (u_and_cu_gates m c)) k = k"
proof -
  have "fwd (rev (u_and_cu_gates m c)) (fwd (u_and_cu_gates m c) k) = k"
    using gates_ok_u_and_cu [OF assms] by (rule fwd_rev_fwd)
  then show ?thesis by (simp add: fwd_u_and_cu [OF assms(1)])
qed

lemma monomial_cx_x: "\<forall>g\<in>set (cx_x_gates i m js). monomial g"
  by (auto simp: cx_x_gates_def)

lemma monomial_x_cx: "\<forall>g\<in>set (x_cx_gates i m js). monomial g"
  by (auto simp: x_cx_gates_def)

lemma monomial_u_and_cu: "\<forall>g\<in>set (u_and_cu_gates m c). monomial g"
  by (auto simp: u_and_cu_gates_def)

lemma monomial_retrieval_middle: "\<forall>g\<in>set (retrieval_middle i m c). monomial g"
  using monomial_cx_x monomial_x_cx monomial_u_and_cu
  by (auto simp: retrieval_middle_def)

lemma gates_ok_middle:
  "retrieval_regs n i m c \<Longrightarrow> gates_ok n (retrieval_middle i m c)"
  unfolding retrieval_middle_def by (rule gates_ok_retrieval_middle)

lemma fwd_rev_retrieval_middle:
  assumes r: "retrieval_regs n i m c"
  shows "fwd (rev (retrieval_middle i m c)) k = k"
proof -
  note d = retrieval_regs_D [OF r]
  let ?A = "cx_x_gates i m [0..<length i]"
  have okA: "gates_ok n ?A"
    using gates_ok_middle [OF r] by (simp add: retrieval_middle_def)
  have "rev (retrieval_middle i m c) = ?A @ rev (u_and_cu_gates m c) @ rev ?A"
    by (simp add: retrieval_middle_def rev_cx_x_gates [symmetric])
  then have "fwd (rev (retrieval_middle i m c)) k
           = fwd (rev ?A) (fwd (rev (u_and_cu_gates m c)) (fwd ?A k))"
    by simp
  also have "\<dots> = fwd (rev ?A) (fwd ?A k)"
    by (simp only: fwd_rev_u_and_cu [OF d(5) d(8) d(7)])
  also have "\<dots> = k" using okA by (rule fwd_rev_fwd)
  finally show ?thesis .
qed

lemma statevector_retrieval_middle:
  assumes r: "retrieval_regs n i m c"
  shows "statevector n (retrieval_middle i m c) \<psi>
       = Some (\<lambda>k. phases (retrieval_middle i m c) k * \<psi> k)"
  by (simp only: statevector_monomial [OF monomial_retrieval_middle gates_ok_middle [OF r]]
      fwd_rev_retrieval_middle [OF r])

lemma statevector_retrieval:
  assumes r: "retrieval_regs n i m c"
  shows "statevector n (retrieval_gates i m c) \<psi>
       = Some (h_op c (\<lambda>k. phases (retrieval_middle i m c) k * h_op c \<psi> k))"
proof -
  have c: "c < n" using retrieval_regs_D(8) [OF r] .
  have "statevector n (retrieval_gates i m c) \<psi>
      = (case statevector n (retrieval_middle i m c) (h_op c \<psi>) of
           None \<Rightarrow> None | Some \<phi> \<Rightarrow> statevector n [HGate c] \<phi>)"
    using c by (simp add: retrieval_gates_middle statevector_append)
  then show ?thesis using c by (simp add: statevector_retrieval_middle [OF r])
qed

lemma probability_weight: "probability n qs v \<psi> = weight \<psi> (value_set n qs v)"
  by (simp add: probability_def weight_def value_set_def)

lemma finite_value_set: "finite (value_set n qs v)"
  by (simp add: value_set_def)

lemma value_set_flip:
  assumes "t \<notin> set qs" and "t < n"
  shows "flip_bit t k \<in> value_set n qs v \<longleftrightarrow> k \<in> value_set n qs v"
proof -
  have "\<And>j. j < length qs \<Longrightarrow> qs ! j \<noteq> t" using assms(1) by auto
  then show ?thesis using assms(2) by (auto simp: value_set_def bit_flip_bit_iff)
qed

lemma weight_phase:
  "(\<And>k. cmod (ph k) = 1) \<Longrightarrow> weight (\<lambda>k. ph k * \<psi> k) S = weight \<psi> S"
  by (simp add: weight_def norm_mult)

lemma probability_retrieval:
  assumes r: "retrieval_regs n i m c"
  shows "probability n m v (h_op c (\<lambda>k. phases (retrieval_middle i m c) k * h_op c \<psi> k))
       = probability n m v \<psi>"
proof -
  note d = retrieval_regs_D [OF r]
  let ?S = "value_set n m v"
  have cl: "\<And>k. flip_bit c k \<in> ?S \<longleftrightarrow> k \<in> ?S" using d(5) d(8) by (rule value_set_flip)
  have h: "\<And>\<phi>. weight (h_op c \<phi>) ?S = weight \<phi> ?S"
    using finite_value_set cl by (rule weight_h_op)
  show ?thesis
    unfolding probability_weight by (simp only: h weight_phase [OF cmod_phases])
qed

subsection \<open>What the loops of the storage sequence do to a basis state\<close>

lemma target_ccx_gates: "target ` set (ccx_gates p u m js) = (\<lambda>j. m ! j) ` set js"
  by (auto simp: ccx_gates_def image_iff)

lemma target_cx_x_gates: "target ` set (cx_x_gates p m js) = (\<lambda>j. m ! j) ` set js"
  by (induction js) (auto simp: cx_x_gates_def)

lemma target_x_cx_gates: "target ` set (x_cx_gates p m js) = (\<lambda>j. m ! j) ` set js"
  by (induction js) (auto simp: x_cx_gates_def)

lemma nth_notin_image:
  assumes "distinct m" and "a < length m" and "\<forall>j\<in>set js. j < length m" and "a \<notin> set js"
  shows "m ! a \<notin> (\<lambda>j. m ! j) ` set js"
  using assms by (auto simp: nth_eq_iff_index_eq)

lemma bit_fwd_ccx:
  assumes "distinct m" and "set p \<inter> set m = {}" and "u ! 1 \<notin> set m"
    and "\<forall>j\<in>set js. j < length p \<and> j < length m" and "distinct js" and "j \<in> set js"
  shows "bit (fwd (ccx_gates p u m js) k) (m ! j)
       = (bit k (m ! j) \<noteq> (bit k (p ! j) \<and> bit k (u ! 1)))"
  using assms(4-6)
proof (induction js arbitrary: k)
  case Nil
  then show ?case by simp
next
  case (Cons a js)
  let ?k = "perm_of (CCXGate (p ! a) (u ! 1) (m ! a)) k"
  have a: "a < length p" "a < length m" "a \<notin> set js" using Cons.prems by auto
  have bnd: "\<forall>j\<in>set js. j < length m" using Cons.prems by auto
  have ma: "m ! a \<in> set m" using a by simp
  have pa1: "p ! a \<noteq> m ! a" using a(1,2) assms(2) by (metis disjoint_iff nth_mem)
  have pa2: "u ! 1 \<noteq> m ! a" using a(2) assms(3) by (metis nth_mem)
  note pa = pa1 pa2
  have eq: "fwd (ccx_gates p u m (a # js)) k = fwd (ccx_gates p u m js) ?k"
    by (simp add: ccx_gates_def)
  show ?case
  proof (cases "j = a")
    case True
    have "m ! a \<notin> target ` set (ccx_gates p u m js)"
      unfolding target_ccx_gates using assms(1) a(2) bnd a(3) by (rule nth_notin_image)
    then have "bit (fwd (ccx_gates p u m js) ?k) (m ! a) = bit ?k (m ! a)"
      by (rule bit_fwd_other)
    then show ?thesis using True pa by (simp add: eq bit_flip_bit_iff)
  next
    case False
    then have j: "j \<in> set js" using Cons.prems by simp
    then have jb: "j < length p" "j < length m" using Cons.prems by auto
    have "m ! j \<noteq> m ! a" using assms(1) jb a False by (simp add: nth_eq_iff_index_eq)
    moreover have "p ! j \<noteq> m ! a" using assms(2) jb ma by (metis disjoint_iff nth_mem)
    ultimately have same: "bit ?k (m ! j) = bit k (m ! j)" "bit ?k (p ! j) = bit k (p ! j)"
      "bit ?k (u ! 1) = bit k (u ! 1)"
      using pa by (simp_all add: bit_flip_bit_iff)
    have "bit (fwd (ccx_gates p u m js) ?k) (m ! j)
        = (bit ?k (m ! j) \<noteq> (bit ?k (p ! j) \<and> bit ?k (u ! 1)))"
      using Cons.prems j by (intro Cons.IH) auto
    then show ?thesis by (simp only: eq same)
  qed
qed

lemma bit_fwd_cx_x:
  assumes "distinct m" and "set p \<inter> set m = {}"
    and "\<forall>j\<in>set js. j < length p \<and> j < length m" and "distinct js" and "j \<in> set js"
  shows "bit (fwd (cx_x_gates p m js) k) (m ! j) = (bit k (m ! j) = bit k (p ! j))"
  using assms(3-5)
proof (induction js arbitrary: k)
  case Nil
  then show ?case by simp
next
  case (Cons a js)
  let ?k = "flip_bit (m ! a) (perm_of (CXGate (p ! a) (m ! a)) k)"
  have a: "a < length p" "a < length m" "a \<notin> set js" using Cons.prems by auto
  have bnd: "\<forall>j\<in>set js. j < length m" using Cons.prems by auto
  have ma: "m ! a \<in> set m" using a by simp
  have pa: "p ! a \<noteq> m ! a" using a(1,2) assms(2) by (metis disjoint_iff nth_mem)
  have eq: "fwd (cx_x_gates p m (a # js)) k = fwd (cx_x_gates p m js) ?k"
    by (simp add: cx_x_gates_def)
  show ?case
  proof (cases "j = a")
    case True
    have "m ! a \<notin> target ` set (cx_x_gates p m js)"
      unfolding target_cx_x_gates using assms(1) a(2) bnd a(3) by (rule nth_notin_image)
    then have "bit (fwd (cx_x_gates p m js) ?k) (m ! a) = bit ?k (m ! a)"
      by (rule bit_fwd_other)
    then show ?thesis using True pa by (auto simp: eq bit_flip_bit_iff)
  next
    case False
    then have j: "j \<in> set js" using Cons.prems by simp
    then have jb: "j < length p" "j < length m" using Cons.prems by auto
    have "m ! j \<noteq> m ! a" using assms(1) jb a False by (simp add: nth_eq_iff_index_eq)
    moreover have "p ! j \<noteq> m ! a" using assms(2) jb ma by (metis disjoint_iff nth_mem)
    ultimately have same: "bit ?k (m ! j) = bit k (m ! j)" "bit ?k (p ! j) = bit k (p ! j)"
      by (simp_all add: bit_flip_bit_iff)
    have "bit (fwd (cx_x_gates p m js) ?k) (m ! j) = (bit ?k (m ! j) = bit ?k (p ! j))"
      using Cons.prems j by (intro Cons.IH) auto
    then show ?thesis by (simp only: eq same)
  qed
qed

lemma bit_fwd_x_cx:
  assumes "distinct m" and "set p \<inter> set m = {}"
    and "\<forall>j\<in>set js. j < length p \<and> j < length m" and "distinct js" and "j \<in> set js"
  shows "bit (fwd (x_cx_gates p m js) k) (m ! j) = (bit k (m ! j) = bit k (p ! j))"
  using assms(3-5)
proof (induction js arbitrary: k)
  case Nil
  then show ?case by simp
next
  case (Cons a js)
  let ?k = "perm_of (CXGate (p ! a) (m ! a)) (flip_bit (m ! a) k)"
  have a: "a < length p" "a < length m" "a \<notin> set js" using Cons.prems by auto
  have bnd: "\<forall>j\<in>set js. j < length m" using Cons.prems by auto
  have ma: "m ! a \<in> set m" using a by simp
  have pa: "p ! a \<noteq> m ! a" using a(1,2) assms(2) by (metis disjoint_iff nth_mem)
  have eq: "fwd (x_cx_gates p m (a # js)) k = fwd (x_cx_gates p m js) ?k"
    by (simp add: x_cx_gates_def)
  show ?case
  proof (cases "j = a")
    case True
    have "m ! a \<notin> target ` set (x_cx_gates p m js)"
      unfolding target_x_cx_gates using assms(1) a(2) bnd a(3) by (rule nth_notin_image)
    then have "bit (fwd (x_cx_gates p m js) ?k) (m ! a) = bit ?k (m ! a)"
      by (rule bit_fwd_other)
    then show ?thesis using True pa by (auto simp: eq bit_flip_bit_iff)
  next
    case False
    then have j: "j \<in> set js" using Cons.prems by simp
    then have jb: "j < length p" "j < length m" using Cons.prems by auto
    have "m ! j \<noteq> m ! a" using assms(1) jb a False by (simp add: nth_eq_iff_index_eq)
    moreover have "p ! j \<noteq> m ! a" using assms(2) jb ma by (metis disjoint_iff nth_mem)
    ultimately have same: "bit ?k (m ! j) = bit k (m ! j)" "bit ?k (p ! j) = bit k (p ! j)"
      by (simp_all add: bit_flip_bit_iff)
    have "bit (fwd (x_cx_gates p m js) ?k) (m ! j) = (bit ?k (m ! j) = bit ?k (p ! j))"
      using Cons.prems j by (intro Cons.IH) auto
    then show ?thesis by (simp only: eq same)
  qed
qed

lemma target_x_gates: "target ` set (map XGate qs) = set qs"
  by (induction qs) auto

lemma mem_pauli_qubits:
  assumes "\<bar>val\<bar> < 2 ^ length p" and "distinct p" and "j < length p"
  shows "p ! j \<in> set (pauli_qubits val p) \<longleftrightarrow> pattern_bit val j"
proof -
  have "p ! j \<in> set (pauli_qubits val p)
      \<longleftrightarrow> (\<exists>j'. p ! j = p ! j' \<and> j' < length p \<and> bit (nat \<bar>val\<bar>) j')"
    by (simp add: set_pauli_qubits [OF assms(1)])
  also have "\<dots> \<longleftrightarrow> bit (nat \<bar>val\<bar>) j"
    using assms(2,3) by (auto simp: nth_eq_iff_index_eq)
  finally show ?thesis by (simp add: pattern_bit_def)
qed

lemma pauli_qubits_in: "\<bar>val\<bar> < 2 ^ length p \<Longrightarrow> q \<in> set (pauli_qubits val p) \<Longrightarrow> q \<in> set p"
  using set_pauli_qubits_subset by blast

lemma fwd_compute:
  "fwd (compute_gates p u m val) k =
     perm_of (MCXGate m (u ! 0))
       (fwd (cx_x_gates p m [0..<length p])
          (fwd (ccx_gates p u m [0..<length p]) (fwd (map XGate (pauli_qubits val p)) k)))"
  by (simp add: compute_gates_def)

lemma fwd_rev_compute:
  "fwd (rev (compute_gates p u m val)) k =
     fwd (map XGate (rev (pauli_qubits val p)))
       (fwd (ccx_gates p u m (rev [0..<length p]))
          (fwd (x_cx_gates p m (rev [0..<length p])) (perm_of (MCXGate m (u ! 0)) k)))"
  by (simp add: compute_gates_def rev_cx_x_gates rev_ccx_gates rev_map)

lemma fwd_rev_uncompute:
  assumes "storage_regs n p u m" and "\<bar>val\<bar> < 2 ^ length p"
  shows "fwd (rev (uncompute_gates p u m val)) k = fwd (compute_gates p u m val) k"
proof -
  have d: "distinct (pauli_qubits val p)"
    using assms(2) storage_regs_D(1) [OF assms(1)] by (rule distinct_pauli_qubits)
  have r1: "rev (x_cx_gates p m (rev [0..<length p])) = cx_x_gates p m [0..<length p]"
    using rev_cx_x_gates [of p m "[0..<length p]"] by (metis rev_rev_ident)
  have r2: "rev (ccx_gates p u m (rev [0..<length p])) = ccx_gates p u m [0..<length p]"
    by (simp add: rev_ccx_gates)
  have "rev (uncompute_gates p u m val)
      = map XGate (rev (pauli_qubits val p)) @ ccx_gates p u m [0..<length p]
        @ cx_x_gates p m [0..<length p] @ [MCXGate m (u ! 0)]"
    by (simp add: uncompute_gates_def r1 r2 rev_map)
  then show ?thesis by (simp add: fwd_compute fwd_x_rev [OF d])
qed

text \<open>The bits of the basis state after steps 0 to 3.\<close>

lemma bit_compute_p:
  assumes r: "storage_regs n p u m" and v: "\<bar>val\<bar> < 2 ^ length p" and j: "j < length p"
  shows "bit (fwd (compute_gates p u m val) k) (p ! j) = (bit k (p ! j) \<noteq> pattern_bit val j)"
proof -
  note d = storage_regs_D [OF r]
  have pj: "p ! j \<in> set p" using j by simp
  have nm: "p ! j \<notin> set m" using pj d(4) by blast
  have nu: "p ! j \<noteq> u ! 0" using pj d(17) by metis
  let ?k1 = "fwd (map XGate (pauli_qubits val p)) k"
  let ?k2 = "fwd (ccx_gates p u m [0..<length p]) ?k1"
  let ?k3 = "fwd (cx_x_gates p m [0..<length p]) ?k2"
  have "p ! j \<notin> (\<lambda>j. m ! j) ` set [0..<length p]" using nm d(11) by auto
  then have t: "p ! j \<notin> target ` set (ccx_gates p u m [0..<length p])"
    "p ! j \<notin> target ` set (cx_x_gates p m [0..<length p])"
    by (simp_all only: target_ccx_gates target_cx_x_gates not_False_eq_True)
  have "bit (fwd (compute_gates p u m val) k) (p ! j) = bit ?k3 (p ! j)"
    using nu by (simp add: fwd_compute bit_flip_bit_iff)
  also have "\<dots> = bit ?k2 (p ! j)" using t(2) by (rule bit_fwd_other)
  also have "\<dots> = bit ?k1 (p ! j)" using t(1) by (rule bit_fwd_other)
  also have "\<dots> = (bit k (p ! j) \<noteq> (p ! j \<in> set (pauli_qubits val p)))"
    using distinct_pauli_qubits [OF v d(1)] by (rule bit_fwd_x)
  finally show ?thesis by (simp only: mem_pauli_qubits [OF v d(1) j])
qed

lemma bit_x_gates_other:
  "q \<notin> set qs \<Longrightarrow> bit (fwd (map XGate qs) k) q = bit k q"
  by (rule bit_fwd_other) (simp only: target_x_gates not_False_eq_True)

lemma bit_compute_m:
  assumes r: "storage_regs n p u m" and v: "\<bar>val\<bar> < 2 ^ length p" and j: "j < length p"
  shows "bit (fwd (compute_gates p u m val) k) (m ! j)
       = ((bit k (m ! j) \<noteq> ((bit k (p ! j) \<noteq> pattern_bit val j) \<and> bit k (u ! 1)))
          = (bit k (p ! j) \<noteq> pattern_bit val j))"
proof -
  note d = storage_regs_D [OF r]
  have jm: "j < length m" using j d(11) by simp
  have pj: "p ! j \<in> set p" using j by simp
  have mj: "m ! j \<in> set m" using jm by simp
  have mu: "m ! j \<noteq> u ! 0" using mj d(15) by metis
  have js: "\<forall>j\<in>set [0..<length p]. j < length p \<and> j < length m" using d(11) by simp
  have jin: "j \<in> set [0..<length p]" using j by simp
  let ?pq = "pauli_qubits val p"
  let ?k1 = "fwd (map XGate ?pq) k"
  let ?k2 = "fwd (ccx_gates p u m [0..<length p]) ?k1"
  let ?k3 = "fwd (cx_x_gates p m [0..<length p]) ?k2"
  have nt: "p ! j \<notin> target ` set (ccx_gates p u m [0..<length p])"
  proof -
    have "p ! j \<notin> (\<lambda>j. m ! j) ` set [0..<length p]" using pj d(4) d(11) by auto
    then show ?thesis by (simp only: target_ccx_gates not_False_eq_True)
  qed
  have m1: "m ! j \<notin> set ?pq" using pauli_qubits_in [OF v] mj d(4) by blast
  have u1: "u ! 1 \<notin> set ?pq" using pauli_qubits_in [OF v] d(18) by blast
  have k1p: "bit ?k1 (p ! j) = (bit k (p ! j) \<noteq> pattern_bit val j)"
    using bit_fwd_x [OF distinct_pauli_qubits [OF v d(1)], of k "p ! j"]
    by (simp only: mem_pauli_qubits [OF v d(1) j])
  have k1m: "bit ?k1 (m ! j) = bit k (m ! j)" using m1 by (rule bit_x_gates_other)
  have k1u: "bit ?k1 (u ! 1) = bit k (u ! 1)" using u1 by (rule bit_x_gates_other)
  have k2m: "bit ?k2 (m ! j) = (bit ?k1 (m ! j) \<noteq> (bit ?k1 (p ! j) \<and> bit ?k1 (u ! 1)))"
    using d(2) d(4) d(16) js distinct_upt jin by (rule bit_fwd_ccx)
  have k2p: "bit ?k2 (p ! j) = bit ?k1 (p ! j)" using nt by (rule bit_fwd_other)
  have k3m: "bit ?k3 (m ! j) = (bit ?k2 (m ! j) = bit ?k2 (p ! j))"
    using d(2) d(4) js distinct_upt jin by (rule bit_fwd_cx_x)
  have "bit (fwd (compute_gates p u m val) k) (m ! j) = bit ?k3 (m ! j)"
    using mu by (simp add: fwd_compute bit_flip_bit_iff)
  then show ?thesis by (simp only: k3m k2m k2p k1p k1m k1u)
qed

lemma bit_compute_u0:
  assumes r: "storage_regs n p u m" and v: "\<bar>val\<bar> < 2 ^ length p"
  shows "bit (fwd (compute_gates p u m val) k) (u ! 0)
       = (bit k (u ! 0) \<noteq> (\<forall>c\<in>set m. bit (fwd (compute_gates p u m val) k) c))"
proof -
  note d = storage_regs_D [OF r]
  let ?pq = "pauli_qubits val p"
  let ?k1 = "fwd (map XGate ?pq) k"
  let ?k2 = "fwd (ccx_gates p u m [0..<length p]) ?k1"
  let ?k3 = "fwd (cx_x_gates p m [0..<length p]) ?k2"
  have F: "fwd (compute_gates p u m val) k = perm_of (MCXGate m (u ! 0)) ?k3"
    by (rule fwd_compute)
  have nt: "u ! 0 \<notin> (\<lambda>j. m ! j) ` set [0..<length p]" using d(15) d(11) by auto
  have "u ! 0 \<notin> set ?pq" using pauli_qubits_in [OF v] d(17) by blast
  then have "bit ?k1 (u ! 0) = bit k (u ! 0)" by (rule bit_x_gates_other)
  moreover have "bit ?k2 (u ! 0) = bit ?k1 (u ! 0)"
    by (rule bit_fwd_other) (simp only: target_ccx_gates nt not_False_eq_True)
  moreover have "bit ?k3 (u ! 0) = bit ?k2 (u ! 0)"
    by (rule bit_fwd_other) (simp only: target_cx_x_gates nt not_False_eq_True)
  ultimately have k3u: "bit ?k3 (u ! 0) = bit k (u ! 0)" by simp
  have same: "\<And>c. c \<in> set m \<Longrightarrow> bit (perm_of (MCXGate m (u ! 0)) ?k3) c = bit ?k3 c"
    using d(15) by (intro bit_perm_of_other) auto
  have "bit (perm_of (MCXGate m (u ! 0)) ?k3) (u ! 0)
      = (bit ?k3 (u ! 0) \<noteq> (\<forall>c\<in>set m. bit ?k3 c))"
    by (simp add: bit_flip_bit_iff)
  also have "\<dots> = (bit k (u ! 0) \<noteq> (\<forall>c\<in>set m. bit (perm_of (MCXGate m (u ! 0)) ?k3) c))"
    using same k3u by simp
  finally show ?thesis by (simp only: F)
qed

lemma target_compute:
  assumes r: "storage_regs n p u m" and v: "\<bar>val\<bar> < 2 ^ length p"
  shows "target ` set (compute_gates p u m val) \<subseteq> set p \<union> set m \<union> {u ! 0}"
proof -
  have a: "target ` set (map XGate (pauli_qubits val p)) \<subseteq> set p"
    using set_pauli_qubits_subset [OF v] by (simp only: target_x_gates)
  have b: "(\<lambda>j. m ! j) ` set [0..<length p] \<subseteq> set m"
    using storage_regs_D(11) [OF r] by auto
  show ?thesis
    using a b unfolding compute_gates_def
    by (simp add: image_Un target_ccx_gates target_cx_x_gates) blast
qed

lemma bit_compute_other:
  assumes r: "storage_regs n p u m" and v: "\<bar>val\<bar> < 2 ^ length p"
    and q: "q \<notin> set p" "q \<notin> set m" "q \<noteq> u ! 0"
  shows "bit (fwd (compute_gates p u m val) k) q = bit k q"
    and "bit (fwd (rev (compute_gates p u m val)) k) q = bit k q"
proof -
  have t: "q \<notin> target ` set (compute_gates p u m val)"
    using target_compute [OF r v] q by blast
  then show "bit (fwd (compute_gates p u m val) k) q = bit k q"
    by (rule bit_fwd_other)
  have "q \<notin> target ` set (rev (compute_gates p u m val))" using t by simp
  then show "bit (fwd (rev (compute_gates p u m val)) k) q = bit k q"
    by (rule bit_fwd_other)
qed

subsection \<open>Undoing steps 0 to 3 on a basis state\<close>

lemma bit_rev_compute_p:
  assumes r: "storage_regs n p u m" and v: "\<bar>val\<bar> < 2 ^ length p" and j: "j < length p"
  shows "bit (fwd (rev (compute_gates p u m val)) k) (p ! j)
       = (bit k (p ! j) \<noteq> pattern_bit val j)"
proof -
  note d = storage_regs_D [OF r]
  have pj: "p ! j \<in> set p" using j by simp
  have nu: "p ! j \<noteq> u ! 0" using pj d(17) by metis
  let ?k1 = "perm_of (MCXGate m (u ! 0)) k"
  let ?k2 = "fwd (x_cx_gates p m (rev [0..<length p])) ?k1"
  let ?k3 = "fwd (ccx_gates p u m (rev [0..<length p])) ?k2"
  have "p ! j \<notin> (\<lambda>j. m ! j) ` set (rev [0..<length p])" using pj d(4) d(11) by auto
  then have t: "p ! j \<notin> target ` set (ccx_gates p u m (rev [0..<length p]))"
    "p ! j \<notin> target ` set (x_cx_gates p m (rev [0..<length p]))"
    by (simp_all only: target_ccx_gates target_x_cx_gates not_False_eq_True)
  have dq: "distinct (rev (pauli_qubits val p))"
    using distinct_pauli_qubits [OF v d(1)] by simp
  have "bit (fwd (rev (compute_gates p u m val)) k) (p ! j)
      = (bit ?k3 (p ! j) \<noteq> (p ! j \<in> set (rev (pauli_qubits val p))))"
    unfolding fwd_rev_compute using dq by (rule bit_fwd_x)
  also have "bit ?k3 (p ! j) = bit ?k2 (p ! j)" using t(1) by (rule bit_fwd_other)
  also have "bit ?k2 (p ! j) = bit ?k1 (p ! j)" using t(2) by (rule bit_fwd_other)
  also have "bit ?k1 (p ! j) = bit k (p ! j)" by (rule bit_perm_of_other) (simp add: nu)
  finally show ?thesis using mem_pauli_qubits [OF v d(1) j] by simp
qed

lemma bit_rev_compute_m:
  assumes r: "storage_regs n p u m" and v: "\<bar>val\<bar> < 2 ^ length p" and j: "j < length p"
  shows "bit (fwd (rev (compute_gates p u m val)) k) (m ! j)
       = ((bit k (m ! j) = bit k (p ! j)) \<noteq> (bit k (p ! j) \<and> bit k (u ! 1)))"
proof -
  note d = storage_regs_D [OF r]
  have jm: "j < length m" using j d(11) by simp
  have pj: "p ! j \<in> set p" using j by simp
  have mj: "m ! j \<in> set m" using jm by simp
  have mu: "m ! j \<noteq> u ! 0" using mj d(15) by metis
  have pu: "p ! j \<noteq> u ! 0" using pj d(17) by metis
  have js: "\<forall>j\<in>set (rev [0..<length p]). j < length p \<and> j < length m" using d(11) by simp
  have dj: "distinct (rev [0..<length p])" by simp
  have jin: "j \<in> set (rev [0..<length p])" using j by simp
  let ?k1 = "perm_of (MCXGate m (u ! 0)) k"
  let ?k2 = "fwd (x_cx_gates p m (rev [0..<length p])) ?k1"
  let ?k3 = "fwd (ccx_gates p u m (rev [0..<length p])) ?k2"
  have img: "p ! j \<notin> (\<lambda>j. m ! j) ` set (rev [0..<length p])"
    "u ! 1 \<notin> (\<lambda>j. m ! j) ` set (rev [0..<length p])"
    using pj d(4) d(11) d(16) by auto
  have k1a: "bit ?k1 (m ! j) = bit k (m ! j)"
    by (rule bit_perm_of_other) (simp add: mu)
  have k1b: "bit ?k1 (p ! j) = bit k (p ! j)"
    by (rule bit_perm_of_other) (simp add: pu)
  have k1c: "bit ?k1 (u ! 1) = bit k (u ! 1)"
    by (rule bit_perm_of_other) (use d(14) in auto)
  note k1 = k1a k1b k1c
  have k2m: "bit ?k2 (m ! j) = (bit ?k1 (m ! j) = bit ?k1 (p ! j))"
    using d(2) d(4) js dj jin by (rule bit_fwd_x_cx)
  have k2p: "bit ?k2 (p ! j) = bit ?k1 (p ! j)"
    by (rule bit_fwd_other) (simp only: target_x_cx_gates img not_False_eq_True)
  have k2u: "bit ?k2 (u ! 1) = bit ?k1 (u ! 1)"
    by (rule bit_fwd_other) (simp only: target_x_cx_gates img not_False_eq_True)
  have k3m: "bit ?k3 (m ! j) = (bit ?k2 (m ! j) \<noteq> (bit ?k2 (p ! j) \<and> bit ?k2 (u ! 1)))"
    using d(2) d(4) d(16) js dj jin by (rule bit_fwd_ccx)
  have "m ! j \<notin> set (rev (pauli_qubits val p))"
    using pauli_qubits_in [OF v] mj d(4) by auto
  then have "bit (fwd (rev (compute_gates p u m val)) k) (m ! j) = bit ?k3 (m ! j)"
    unfolding fwd_rev_compute by (rule bit_x_gates_other)
  then show ?thesis by (simp only: k3m k2m k2p k2u k1)
qed

lemma bit_rev_compute_u0:
  assumes r: "storage_regs n p u m" and v: "\<bar>val\<bar> < 2 ^ length p"
  shows "bit (fwd (rev (compute_gates p u m val)) k) (u ! 0)
       = (bit k (u ! 0) \<noteq> (\<forall>c\<in>set m. bit k c))"
proof -
  note d = storage_regs_D [OF r]
  let ?k1 = "perm_of (MCXGate m (u ! 0)) k"
  let ?k2 = "fwd (x_cx_gates p m (rev [0..<length p])) ?k1"
  let ?k3 = "fwd (ccx_gates p u m (rev [0..<length p])) ?k2"
  have nt: "u ! 0 \<notin> (\<lambda>j. m ! j) ` set (rev [0..<length p])" using d(15) d(11) by auto
  have "u ! 0 \<notin> set (rev (pauli_qubits val p))" using pauli_qubits_in [OF v] d(17) by auto
  then have "bit (fwd (rev (compute_gates p u m val)) k) (u ! 0) = bit ?k3 (u ! 0)"
    unfolding fwd_rev_compute by (rule bit_x_gates_other)
  also have "\<dots> = bit ?k2 (u ! 0)"
    by (rule bit_fwd_other) (simp only: target_ccx_gates nt not_False_eq_True)
  also have "\<dots> = bit ?k1 (u ! 0)"
    by (rule bit_fwd_other) (simp only: target_x_cx_gates nt not_False_eq_True)
  also have "\<dots> = (bit k (u ! 0) \<noteq> (\<forall>c\<in>set m. bit k c))"
    by (simp add: bit_flip_bit_iff)
  finally show ?thesis .
qed

lemma perm_gates_compute: "\<forall>g\<in>set (compute_gates p u m val). monomial g \<and> (\<forall>k. phase_of g k = 1)"
  by (auto simp: compute_gates_def ccx_gates_def cx_x_gates_def)

lemma perm_gates_uncompute:
  "\<forall>g\<in>set (uncompute_gates p u m val). monomial g \<and> (\<forall>k. phase_of g k = 1)"
  by (auto simp: uncompute_gates_def ccx_gates_def x_cx_gates_def)

lemma statevector_perm_gates:
  assumes "\<forall>g\<in>set gs. monomial g \<and> (\<forall>k. phase_of g k = 1)" and "gates_ok n gs"
  shows "statevector n gs \<psi> = Some (\<lambda>k. \<psi> (fwd (rev gs) k))"
proof -
  have "\<forall>g\<in>set gs. monomial g" using assms(1) by blast
  then have "statevector n gs \<psi> = Some (\<lambda>k. phases gs k * \<psi> (fwd (rev gs) k))"
    using assms(2) by (rule statevector_monomial)
  moreover have "\<And>k. phases gs k = 1" using assms(1) by (intro phases_no_phase) blast
  ultimately show ?thesis by simp
qed

lemma statevector_body:
  assumes r: "storage_regs n p u m" and v: "\<bar>val\<bar> < 2 ^ length p"
  shows "statevector n (body_gates (Num \<theta>) p u m val) \<psi> = Some (body_state \<theta> p u m val \<psi>)"
proof -
  note d = storage_regs_D [OF r]
  let ?C = "compute_gates p u m val" and ?U = "uncompute_gates p u m val"
  let ?F = "fwd ?C" and ?Fi = "fwd (rev ?C)"
  have okC: "gates_ok n ?C" using r v by (rule gates_ok_compute)
  have okU: "gates_ok n ?U" using r v by (rule gates_ok_uncompute)
  have sC: "statevector n ?C \<psi> = Some (\<lambda>k. \<psi> (?Fi k))"
    using perm_gates_compute okC by (rule statevector_perm_gates)
  have sU: "\<And>\<phi>. statevector n ?U \<phi> = Some (\<lambda>k. \<phi> (?F k))"
    using statevector_perm_gates [OF perm_gates_uncompute okU]
    by (simp only: fwd_rev_uncompute [OF r v])
  have e1: "statevector n (body_gates (Num \<theta>) p u m val) \<psi>
      = statevector n (CRYGate (Num \<theta>) (u ! 0) (u ! 1) # ?U) (\<lambda>k. \<psi> (?Fi k))"
    by (simp add: body_gates_def statevector_append sC)
  have e2: "\<And>\<phi>. statevector n (CRYGate (Num \<theta>) (u ! 0) (u ! 1) # ?U) \<phi>
      = statevector n ?U (cry_op \<theta> (u ! 0) (u ! 1) \<phi>)"
    using d(14,19,20) by simp
  have "statevector n (body_gates (Num \<theta>) p u m val) \<psi>
      = Some (\<lambda>k. cry_op \<theta> (u ! 0) (u ! 1) (\<lambda>k'. \<psi> (?Fi k')) (?F k))"
    by (simp only: e1 e2 sU)
  also have "(\<lambda>k. cry_op \<theta> (u ! 0) (u ! 1) (\<lambda>k'. \<psi> (?Fi k')) (?F k))
           = body_state \<theta> p u m val \<psi>"
  proof (rule ext)
    fix k
    have inv: "?Fi (?F k) = k" using okC by (rule fwd_rev_fwd)
    have u1: "bit (?F k) (u ! 1) = bit k (u ! 1)"
      using r v d(18) d(16) d(14) by (intro bit_compute_other(1)) auto
    have su: "bit (?F k) (u ! 1) \<Longrightarrow> unset_bit (u ! 1) (?F k) = flip_bit (u ! 1) (?F k)"
      by (simp add: flip_eq_unset)
    have ss: "\<not> bit (?F k) (u ! 1) \<Longrightarrow> set_bit (u ! 1) (?F k) = flip_bit (u ! 1) (?F k)"
      by (simp add: flip_eq_set)
    show "cry_op \<theta> (u ! 0) (u ! 1) (\<lambda>k'. \<psi> (?Fi k')) (?F k) = body_state \<theta> p u m val \<psi> k"
      using inv u1 su ss
      by (simp add: cry_op_def body_state_def matches_def partner_def)
  qed
  finally show ?thesis .
qed

subsection \<open>The partner of a basis state\<close>

lemma partner_partner:
  assumes r: "storage_regs n p u m" and v: "\<bar>val\<bar> < 2 ^ length p"
  shows "partner p u m val (partner p u m val k) = k"
proof -
  have ok: "gates_ok n (compute_gates p u m val)" using r v by (rule gates_ok_compute)
  show ?thesis
    unfolding partner_def
    by (simp only: fwd_fwd_rev [OF ok] flip_flip fwd_rev_fwd [OF ok])
qed

lemma matches_partner:
  assumes r: "storage_regs n p u m" and v: "\<bar>val\<bar> < 2 ^ length p"
  shows "matches p u m val (partner p u m val k) = matches p u m val k"
proof -
  have ok: "gates_ok n (compute_gates p u m val)" using r v by (rule gates_ok_compute)
  have ne: "u ! 1 \<noteq> u ! 0" using storage_regs_D(14) [OF r] by simp
  show ?thesis
    unfolding partner_def matches_def
    using ne by (simp only: fwd_fwd_rev [OF ok] bit_flip_bit_iff) simp
qed

lemma partner_lt:
  assumes r: "storage_regs n p u m" and v: "\<bar>val\<bar> < 2 ^ length p"
  shows "partner p u m val k < 2 ^ n \<longleftrightarrow> k < 2 ^ n"
proof -
  have ok: "gates_ok n (compute_gates p u m val)" using r v by (rule gates_ok_compute)
  then have ok': "gates_ok n (rev (compute_gates p u m val))" by simp
  show ?thesis
    unfolding partner_def
    by (simp only: fwd_lt [OF ok'] flip_bit_lt [OF storage_regs_D(20) [OF r]] fwd_lt [OF ok])
qed

lemma bit_partner_p:
  assumes r: "storage_regs n p u m" and v: "\<bar>val\<bar> < 2 ^ length p" and j: "j < length p"
  shows "bit (partner p u m val k) (p ! j) = bit k (p ! j)"
proof -
  have "p ! j \<in> set p" using j by simp
  then have ne: "u ! 1 \<noteq> p ! j" using storage_regs_D(18) [OF r] by metis
  show ?thesis
    unfolding partner_def
    using ne
    by (simp only: bit_rev_compute_p [OF r v j] bit_flip_bit_iff bit_compute_p [OF r v j]) auto
qed

lemma bit_partner_u1:
  assumes r: "storage_regs n p u m" and v: "\<bar>val\<bar> < 2 ^ length p"
  shows "bit (partner p u m val k) (u ! 1) = (\<not> bit k (u ! 1))"
proof -
  note d = storage_regs_D [OF r]
  have q: "u ! 1 \<notin> set p" "u ! 1 \<notin> set m" "u ! 1 \<noteq> u ! 0" using d(18) d(16) d(14) by auto
  show ?thesis
    unfolding partner_def
    by (simp only: bit_compute_other [OF r v q] bit_flip_bit_iff) simp
qed

lemma bit_basis_index: "bit (basis_index qs) q \<longleftrightarrow> q \<in> set qs"
  by (induction qs) (auto simp: bit_set_bit_iff)

lemma bit_proc_index: "bit (proc_index u) q \<longleftrightarrow> q = u ! 1"
  unfolding proc_index_def bit_basis_index by auto

lemma bit_stored_index_m:
  assumes "\<bar>val\<bar> < 2 ^ length m" and "distinct m" and "j < length m"
  shows "bit (stored_index m val) (m ! j) = pattern_bit val j"
  by (simp only: stored_index_def bit_basis_index mem_pauli_qubits [OF assms])

lemma bit_stored_index_other:
  assumes "\<bar>val\<bar> < 2 ^ length m" and "q \<notin> set m"
  shows "\<not> bit (stored_index m val) q"
  using pauli_qubits_in [OF assms(1)] assms(2) by (auto simp: stored_index_def bit_basis_index)

lemma basis_index_lt: "\<forall>q\<in>set qs. q < n \<Longrightarrow> basis_index qs < 2 ^ n"
  by (simp add: lt_pow2_iff_bits bit_basis_index)

lemma pattern_bit_eq:
  assumes "0 \<le> a" and "0 \<le> b" and "\<And>j. pattern_bit a j = pattern_bit b j"
  shows "a = b"
proof -
  have "nat \<bar>a\<bar> = nat \<bar>b\<bar>" using assms(3) by (intro bit_eqI) (simp add: pattern_bit_def)
  then show ?thesis using assms(1,2) by simp
qed

lemma pattern_bit_ge: "\<bar>a\<bar> < 2 ^ w \<Longrightarrow> w \<le> j \<Longrightarrow> \<not> pattern_bit a j"
  using fits_iff [of a w] by (auto simp: pattern_bit_def)

lemma pattern_bit_differs:
  assumes "0 \<le> a" and "0 \<le> b" and "\<bar>a\<bar> < 2 ^ w" and "\<bar>b\<bar> < 2 ^ w" and "a \<noteq> b"
  shows "\<exists>j<w. pattern_bit a j \<noteq> pattern_bit b j"
proof (rule ccontr)
  assume "\<not> (\<exists>j<w. pattern_bit a j \<noteq> pattern_bit b j)"
  then have low: "\<And>j. j < w \<Longrightarrow> pattern_bit a j = pattern_bit b j" by blast
  have "\<And>j. pattern_bit a j = pattern_bit b j"
  proof -
    fix j show "pattern_bit a j = pattern_bit b j"
      using low [of j] pattern_bit_ge [OF assms(3), of j] pattern_bit_ge [OF assms(4), of j]
      by (cases "j < w") auto
  qed
  then have "a = b" using assms(1,2) by (intro pattern_bit_eq)
  then show False using assms(5) by simp
qed

lemma stored_index_inj:
  assumes "distinct m" and "0 \<le> a" and "0 \<le> b"
    and "\<bar>a\<bar> < 2 ^ length m" and "\<bar>b\<bar> < 2 ^ length m"
    and "stored_index m a = stored_index m b"
  shows "a = b"
proof (rule ccontr)
  assume "a \<noteq> b"
  then obtain j where j: "j < length m" "pattern_bit a j \<noteq> pattern_bit b j"
    using pattern_bit_differs [OF assms(2,3,4,5)] by blast
  have "bit (stored_index m a) (m ! j) \<noteq> bit (stored_index m b) (m ! j)"
    using j(2)
    by (simp only: bit_stored_index_m [OF assms(4) assms(1) j(1)]
        bit_stored_index_m [OF assms(5) assms(1) j(1)] not_False_eq_True)
  then show False using assms(6) by simp
qed

subsection \<open>The processing term and the stored patterns under steps 0 to 3\<close>

lemma compute_proc_m:
  assumes r: "storage_regs n p u m" and v: "\<bar>val\<bar> < 2 ^ length p" and j: "j < length p"
  shows "bit (fwd (compute_gates p u m val) (proc_index u)) (m ! j)"
proof -
  note d = storage_regs_D [OF r]
  have "p ! j \<in> set p" "m ! j \<in> set m" using j d(11) by simp_all
  then have ne: "p ! j \<noteq> u ! 1" "m ! j \<noteq> u ! 1" using d(18) d(16) by metis+
  show ?thesis
    using ne by (simp only: bit_compute_m [OF r v j] bit_proc_index) simp
qed

lemma matches_proc:
  assumes r: "storage_regs n p u m" and v: "\<bar>val\<bar> < 2 ^ length p"
  shows "matches p u m val (proc_index u)"
proof -
  note d = storage_regs_D [OF r]
  have all: "\<forall>c\<in>set m. bit (fwd (compute_gates p u m val) (proc_index u)) c"
  proof
    fix c assume "c \<in> set m"
    then obtain j where "j < length m" "c = m ! j" by (auto simp: in_set_conv_nth)
    then show "bit (fwd (compute_gates p u m val) (proc_index u)) c"
      using compute_proc_m [OF r v, of j] d(11) by simp
  qed
  have "\<not> bit (proc_index u) (u ! 0)" using d(14) by (simp add: bit_proc_index)
  then show ?thesis
    unfolding matches_def using all by (simp only: bit_compute_u0 [OF r v]) simp
qed

lemma partner_proc:
  assumes r: "storage_regs n p u m" and v: "\<bar>val\<bar> < 2 ^ length p"
  shows "partner p u m val (proc_index u) = stored_index m val"
proof (rule bit_eqI)
  fix q
  note d = storage_regs_D [OF r]
  have vm: "\<bar>val\<bar> < 2 ^ length m" using v d(11) by simp
  let ?F = "fwd (compute_gates p u m val) (proc_index u)"
  let ?x = "flip_bit (u ! 1) ?F"
  have Fm: "\<And>j. j < length p \<Longrightarrow> bit ?F (m ! j)" using compute_proc_m [OF r v] .
  have Fall: "\<forall>c\<in>set m. bit ?F c"
  proof
    fix c assume "c \<in> set m"
    then obtain j where "j < length m" "c = m ! j" by (auto simp: in_set_conv_nth)
    then show "bit ?F c" using Fm [of j] d(11) by simp
  qed
  have Fu0: "bit ?F (u ! 0)" using matches_proc [OF r v] by (simp add: matches_def)
  have xm: "\<And>c. c \<in> set m \<Longrightarrow> bit ?x c"
  proof -
    fix c assume c: "c \<in> set m"
    then have "c \<noteq> u ! 1" using d(16) by metis
    then show "bit ?x c" using Fall c by (simp add: bit_flip_bit_iff)
  qed
  have xu0: "bit ?x (u ! 0)" using Fu0 d(14) by (simp add: bit_flip_bit_iff)
  have xu1: "\<not> bit ?x (u ! 1)"
  proof -
    have "bit ?F (u ! 1) = bit (proc_index u) (u ! 1)"
      using r v d(18) d(16) d(14) by (intro bit_compute_other(1)) auto
    then show ?thesis by (simp add: bit_flip_bit_iff bit_proc_index)
  qed
  have xp: "\<And>j. j < length p \<Longrightarrow> bit ?x (p ! j) = pattern_bit val j"
  proof -
    fix j assume j: "j < length p"
    then have "p ! j \<in> set p" by simp
    then have ne: "p ! j \<noteq> u ! 1" using d(18) by metis
    have "bit ?F (p ! j) = (bit (proc_index u) (p ! j) \<noteq> pattern_bit val j)"
      using r v j by (rule bit_compute_p)
    then show "bit ?x (p ! j) = pattern_bit val j"
      using ne by (simp add: bit_flip_bit_iff bit_proc_index)
  qed
  show "bit (partner p u m val (proc_index u)) q = bit (stored_index m val) q"
  proof -
    consider (inp) j where "j < length p" "q = p ! j"
      | (inm) j where "j < length p" "q = m ! j"
      | (u0) "q = u ! 0"
      | (other) "q \<notin> set p" "q \<notin> set m" "q \<noteq> u ! 0"
      using d(11) by (metis in_set_conv_nth)
    then show ?thesis
    proof cases
      case inp
      have "q \<notin> set m" using inp d(4) by (metis disjoint_iff nth_mem)
      then have "\<not> bit (stored_index m val) q" using vm by (intro bit_stored_index_other)
      moreover have "\<not> bit (partner p u m val (proc_index u)) q"
        unfolding partner_def inp(2)
        by (simp only: bit_rev_compute_p [OF r v inp(1)] xp [OF inp(1)] simp_thms)
      ultimately show ?thesis by simp
    next
      case inm
      have jm: "j < length m" using inm(1) d(11) by simp
      have "bit (stored_index m val) q = pattern_bit val j"
        unfolding inm(2) using vm d(2) jm by (rule bit_stored_index_m)
      moreover have "bit (partner p u m val (proc_index u)) q = pattern_bit val j"
        unfolding partner_def inm(2)
        using xm [of "m ! j"] jm xu1
        by (simp only: bit_rev_compute_m [OF r v inm(1)] xp [OF inm(1)]) auto
      ultimately show ?thesis by simp
    next
      case u0
      have "q \<notin> set m" using d(15) u0 by metis
      then have "\<not> bit (stored_index m val) q" using vm by (intro bit_stored_index_other)
      moreover have "\<not> bit (partner p u m val (proc_index u)) q"
        unfolding partner_def u0
        using xm xu0 by (simp only: bit_rev_compute_u0 [OF r v]) auto
      ultimately show ?thesis by simp
    next
      case other
      have "\<not> bit (stored_index m val) q" using vm other(2) by (rule bit_stored_index_other)
      moreover have "\<not> bit (partner p u m val (proc_index u)) q"
      proof -
        have e: "bit (partner p u m val (proc_index u)) q = bit ?x q"
          unfolding partner_def using r v other by (rule bit_compute_other(2))
        show ?thesis
        proof (cases "q = u ! 1")
          case True
          then show ?thesis using e xu1 by simp
        next
          case False
          have "bit ?x q = bit ?F q" using False by (simp add: bit_flip_bit_iff)
          also have "\<dots> = bit (proc_index u) q" using r v other by (rule bit_compute_other(1))
          also have "\<dots> = False" using False by (simp add: bit_proc_index)
          finally show ?thesis using e by simp
        qed
      qed
      ultimately show ?thesis by simp
    qed
  qed
qed

lemma not_matches_stored:
  assumes r: "storage_regs n p u m" and v: "\<bar>val\<bar> < 2 ^ length p" and v0: "0 \<le> val"
    and a: "\<bar>a\<bar> < 2 ^ length p" and a0: "0 \<le> a" and ne: "a \<noteq> val"
  shows "\<not> matches p u m val (stored_index m a)"
proof -
  note d = storage_regs_D [OF r]
  have am: "\<bar>a\<bar> < 2 ^ length m" using a d(11) by simp
  obtain j where j: "j < length p" "pattern_bit a j \<noteq> pattern_bit val j"
    using pattern_bit_differs [OF a0 v0 a v ne] by blast
  have jm: "j < length m" using j(1) d(11) by simp
  let ?s = "stored_index m a"
  have "p ! j \<in> set p" using j(1) by simp
  then have "p ! j \<notin> set m" using d(4) by blast
  then have sp: "\<not> bit ?s (p ! j)" using am by (intro bit_stored_index_other)
  have su1: "\<not> bit ?s (u ! 1)" using am d(16) by (rule bit_stored_index_other)
  have su0: "\<not> bit ?s (u ! 0)" using am d(15) by (rule bit_stored_index_other)
  have sm: "bit ?s (m ! j) = pattern_bit a j" using am d(2) jm by (rule bit_stored_index_m)
  have "\<not> bit (fwd (compute_gates p u m val) ?s) (m ! j)"
    using j(2) sp su1 by (simp only: bit_compute_m [OF r v j(1)] sm) auto
  moreover have "m ! j \<in> set m" using jm by simp
  ultimately have "\<not> (\<forall>c\<in>set m. bit (fwd (compute_gates p u m val) ?s) c)" by blast
  then show ?thesis
    unfolding matches_def using su0 by (simp only: bit_compute_u0 [OF r v] simp_thms)
qed

lemma stored_ne_proc:
  assumes "storage_regs n p u m" and "\<bar>a\<bar> < 2 ^ length m"
  shows "stored_index m a \<noteq> proc_index u"
proof -
  have "\<not> bit (stored_index m a) (u ! 1)"
    using assms(2) storage_regs_D(16) [OF assms(1)] by (rule bit_stored_index_other)
  moreover have "bit (proc_index u) (u ! 1)" by (simp add: bit_proc_index)
  ultimately show ?thesis by metis
qed

subsection \<open>The rotation angles\<close>

lemma step_angle_half:
  assumes "idx < N"
  shows "step_angle N idx / 2 = - arccos (sqrt (real (N - idx - 1) / real (N - idx)))"
proof -
  have a: "real_of_int (int N - int idx - 1) = real (N - idx - 1)"
    using assms by (simp add: of_nat_diff)
  have b: "real_of_int (int N - int idx) = real (N - idx)"
    using assms by (simp add: of_nat_diff)
  show ?thesis unfolding step_angle_def a b by simp
qed

lemma ratio_bounds:
  assumes "idx < N"
  shows "0 \<le> sqrt (real (N - idx - 1) / real (N - idx))"
    and "sqrt (real (N - idx - 1) / real (N - idx)) \<le> 1"
proof -
  show "0 \<le> sqrt (real (N - idx - 1) / real (N - idx))" by simp
  have "real (N - idx - 1) / real (N - idx) \<le> 1" using assms by (simp add: field_simps)
  then show "sqrt (real (N - idx - 1) / real (N - idx)) \<le> 1" by simp
qed

lemma cos_step_angle:
  assumes "idx < N"
  shows "cos (step_angle N idx / 2) = sqrt (real (N - idx - 1) / real (N - idx))"
proof -
  let ?x = "sqrt (real (N - idx - 1) / real (N - idx))"
  have "- 1 \<le> ?x" using ratio_bounds(1) [OF assms] by linarith
  then have "cos (arccos ?x) = ?x" using ratio_bounds(2) [OF assms] by (rule cos_arccos)
  then show ?thesis by (simp only: step_angle_half [OF assms] cos_minus)
qed

lemma sin_step_angle:
  assumes "idx < N"
  shows "sin (step_angle N idx / 2) = - sqrt (1 / real (N - idx))"
proof -
  let ?x = "sqrt (real (N - idx - 1) / real (N - idx))"
  have lo: "- 1 \<le> ?x" using ratio_bounds(1) [OF assms] by linarith
  have "sin (arccos ?x) = sqrt (1 - ?x\<^sup>2)"
    using lo ratio_bounds(2) [OF assms] by (rule sin_arccos)
  moreover have "?x\<^sup>2 = real (N - idx - 1) / real (N - idx)" by simp
  moreover have "1 - real (N - idx - 1) / real (N - idx) = 1 / real (N - idx)"
    using assms by (simp add: field_simps of_nat_diff)
  ultimately have "sin (arccos ?x) = sqrt (1 / real (N - idx))" by simp
  then show ?thesis by (simp only: step_angle_half [OF assms] sin_minus)
qed

lemma amplitude_proc:
  assumes "idx < N"
  shows "sqrt (real (N - idx - 1) / real (N - idx)) * sqrt (real (N - idx) / real N)
       = sqrt (real (N - Suc idx) / real N)"
proof -
  have nz: "real (N - idx) \<noteq> 0" using assms by simp
  have "real (N - idx - 1) / real (N - idx) * (real (N - idx) / real N)
      = real (N - idx - 1) / real N"
    using nz by simp
  then show ?thesis by (simp add: real_sqrt_mult [symmetric])
qed

lemma amplitude_stored:
  assumes "idx < N"
  shows "sqrt (1 / real (N - idx)) * sqrt (real (N - idx) / real N) = 1 / sqrt (real N)"
proof -
  have nz: "real (N - idx) \<noteq> 0" using assms by simp
  have "1 / real (N - idx) * (real (N - idx) / real N) = 1 / real N"
    using nz by simp
  then have "sqrt (1 / real (N - idx)) * sqrt (real (N - idx) / real N) = sqrt (1 / real N)"
    by (simp add: real_sqrt_mult [symmetric])
  then show ?thesis by (simp add: real_sqrt_divide)
qed

lemma patterns_okD:
  assumes "patterns_ok w vals" and "val \<in> set vals"
  shows "0 \<le> val" "\<bar>val\<bar> < 2 ^ w"
  using assms by (auto simp: patterns_ok_def list_all_iff)

lemma body_state_memory:
  assumes r: "storage_regs n p u m" and ok: "patterns_ok (length p) (past @ [val])"
    and len: "length past < N"
  shows "body_state (step_angle N (length past)) p u m val (memory_state N u m past)
       = memory_state N u m (past @ [val])"
proof (rule ext)
  fix k
  note d = storage_regs_D [OF r]
  let ?idx = "length past"
  let ?\<theta> = "step_angle N ?idx"
  let ?\<psi> = "memory_state N u m past"
  let ?P = "proc_index u" and ?S = "stored_index m val"
  let ?G = "partner p u m val" and ?M = "matches p u m val"
  let ?a = "sqrt (real (N - ?idx) / real N)"
  have v0: "0 \<le> val" and v: "\<bar>val\<bar> < 2 ^ length p"
    using patterns_okD [OF ok, of val] by simp_all
  have vm: "\<bar>val\<bar> < 2 ^ length m" using v d(11) by simp
  have dn: "\<And>a. a \<in> set past \<Longrightarrow> 0 \<le> a \<and> \<bar>a\<bar> < 2 ^ length p \<and> a \<noteq> val"
    using ok patterns_okD [OF ok] by (auto simp: patterns_ok_def)
  have MP: "?M ?P" using r v by (rule matches_proc)
  have GP: "?G ?P = ?S" using r v by (rule partner_proc)
  have GS: "?G ?S = ?P" using partner_partner [OF r v, of ?P] by (simp only: GP)
  have MS: "?M ?S" using matches_partner [OF r v, of ?P] MP by (simp only: GP)
  have SP: "?S \<noteq> ?P" using r vm by (rule stored_ne_proc)
  have Pu1: "bit ?P (u ! 1)" by (simp add: bit_proc_index)
  have Su1: "\<not> bit ?S (u ! 1)" using vm d(16) by (rule bit_stored_index_other)
  have nM: "\<And>a. a \<in> set past \<Longrightarrow> \<not> ?M (stored_index m a)"
    using not_matches_stored [OF r v v0] dn by blast
  have nP: "\<And>a. a \<in> set past \<Longrightarrow> stored_index m a \<noteq> ?P"
    using stored_ne_proc [OF r] dn d(11) by metis
  have Snew: "?S \<notin> stored_index m ` set past"
  proof
    assume "?S \<in> stored_index m ` set past"
    then obtain a where a: "a \<in> set past" "?S = stored_index m a" by blast
    then show False using MS nM [OF a(1)] by simp
  qed
  have \<psi>P: "?\<psi> ?P = complex_of_real ?a" by (simp add: memory_state_def)
  have \<psi>S: "?\<psi> ?S = 0" using SP Snew by (simp add: memory_state_def)
  have c: "cos (?\<theta> / 2) = sqrt (real (N - ?idx - 1) / real (N - ?idx))"
    using len by (rule cos_step_angle)
  have s: "sin (?\<theta> / 2) = - sqrt (1 / real (N - ?idx))" using len by (rule sin_step_angle)
  have target: "\<And>k. memory_state N u m (past @ [val]) k
      = (if k = ?P then complex_of_real (sqrt (real (N - Suc ?idx) / real N))
         else if k = ?S \<or> k \<in> stored_index m ` set past
         then complex_of_real (1 / sqrt (real N)) else 0)"
    by (auto simp: memory_state_def)
  consider (proc) "k = ?P" | (new) "k = ?S" | (old) "k \<in> stored_index m ` set past"
    | (none) "k \<noteq> ?P" "k \<noteq> ?S" "k \<notin> stored_index m ` set past"
    by blast
  then show "body_state ?\<theta> p u m val ?\<psi> k = memory_state N u m (past @ [val]) k"
  proof cases
    case proc
    have "body_state ?\<theta> p u m val ?\<psi> k
        = complex_of_real (cos (?\<theta> / 2)) * complex_of_real ?a"
      using MP Pu1 by (simp add: body_state_def proc GP \<psi>S \<psi>P)
    also have "\<dots> = complex_of_real (sqrt (real (N - Suc ?idx) / real N))"
      by (simp only: c of_real_mult [symmetric] amplitude_proc [OF len])
    finally show ?thesis using proc by (simp add: target)
  next
    case new
    have "body_state ?\<theta> p u m val ?\<psi> k
        = - (complex_of_real (sin (?\<theta> / 2)) * complex_of_real ?a)"
      using MS Su1 by (simp add: body_state_def new GS \<psi>S \<psi>P)
    also have "\<dots> = complex_of_real (sqrt (1 / real (N - ?idx)) * ?a)"
      by (simp add: s)
    also have "\<dots> = complex_of_real (1 / sqrt (real N))"
      by (simp only: amplitude_stored [OF len])
    finally show ?thesis using SP new by (simp add: target)
  next
    case old
    then obtain a where a: "a \<in> set past" "k = stored_index m a" by blast
    have "\<not> ?M k" using nM a by simp
    then have "body_state ?\<theta> p u m val ?\<psi> k = ?\<psi> k" by (simp add: body_state_def)
    also have "\<dots> = complex_of_real (1 / sqrt (real N))"
      using nP [OF a(1)] old a(2) by (simp add: memory_state_def)
    finally show ?thesis using nP [OF a(1)] old a(2) by (simp add: target)
  next
    case none
    have z: "?\<psi> k = 0" using none by (simp add: memory_state_def)
    have "body_state ?\<theta> p u m val ?\<psi> k = 0"
    proof (cases "?M k")
      case False
      then show ?thesis using z by (simp add: body_state_def)
    next
      case True
      have "?G k \<noteq> ?P"
      proof
        assume "?G k = ?P"
        then have "?G (?G k) = ?S" by (simp only: GP)
        then show False using none(2) by (simp only: partner_partner [OF r v])
      qed
      moreover have "?G k \<notin> stored_index m ` set past"
      proof
        assume "?G k \<in> stored_index m ` set past"
        then obtain a where a: "a \<in> set past" "?G k = stored_index m a" by blast
        have "?M (?G k)" using True by (simp only: matches_partner [OF r v])
        then show False using nM [OF a(1)] a(2) by simp
      qed
      ultimately have "?\<psi> (?G k) = 0" by (simp add: memory_state_def)
      then show ?thesis using z by (simp add: body_state_def)
    qed
    then show ?thesis using none by (simp add: target)
  qed
qed

subsection \<open>The state after the storage loop\<close>

lemma patterns_ok_snoc:
  "patterns_ok w (past @ val # rest) \<Longrightarrow> patterns_ok w (past @ [val])"
  by (auto simp: patterns_ok_def)

lemma statevector_storage_gates:
  assumes r: "storage_regs n p u m"
  shows "patterns_ok (length p) (past @ vals) \<Longrightarrow> length past + length vals \<le> N \<Longrightarrow>
         statevector n (storage_gates N p u m (length past) vals) (memory_state N u m past)
         = Some (memory_state N u m (past @ vals))"
proof (induction vals arbitrary: past)
  case Nil
  then show ?case by simp
next
  case (Cons val rest)
  have ok1: "patterns_ok (length p) (past @ [val])" using Cons.prems(1) by (rule patterns_ok_snoc)
  have v: "\<bar>val\<bar> < 2 ^ length p" using patterns_okD [OF ok1, of val] by simp
  have len: "length past < N" using Cons.prems(2) by simp
  have b: "statevector n (body_gates (Num (step_angle N (length past))) p u m val)
             (memory_state N u m past)
         = Some (memory_state N u m (past @ [val]))"
    by (simp only: statevector_body [OF r v] body_state_memory [OF r ok1 len])
  have "statevector n (storage_gates N p u m (length (past @ [val])) rest)
          (memory_state N u m (past @ [val]))
        = Some (memory_state N u m ((past @ [val]) @ rest))"
    using Cons.prems by (intro Cons.IH) simp_all
  then have c: "statevector n (storage_gates N p u m (Suc (length past)) rest)
          (memory_state N u m (past @ [val]))
        = Some (memory_state N u m (past @ val # rest))"
    by simp
  show ?case by (simp add: statevector_append b c del: statevector.simps)
qed

lemma flip_bit_eq_0: "flip_bit q (k::nat) = 0 \<longleftrightarrow> k = set_bit q 0"
proof
  assume "flip_bit q k = 0"
  then have "flip_bit q (flip_bit q k) = flip_bit q 0" by (simp only:)
  then have "k = flip_bit q 0" by (simp only: flip_flip)
  also have "flip_bit q (0::nat) = set_bit q 0"
    by (rule bit_eqI) (auto simp: bit_flip_bit_iff bit_set_bit_iff bit_exp_iff)
  finally show "k = set_bit q 0" .
next
  assume k: "k = set_bit q 0"
  show "flip_bit q k = 0"
    unfolding k by (rule bit_eqI) (auto simp: bit_flip_bit_iff bit_set_bit_iff bit_exp_iff)
qed

lemma statevector_initial:
  assumes "u ! 1 < n" and "0 < N"
  shows "statevector n [XGate (u ! 1)] zero_state = Some (memory_state N u m [])"
proof -
  have "x_op (u ! 1) zero_state = memory_state N u m []"
  proof (rule ext)
    fix k
    show "x_op (u ! 1) zero_state k = memory_state N u m [] k"
      using assms(2)
      by (simp add: x_op_def zero_state_def memory_state_def proc_index_def flip_bit_eq_0)
  qed
  then show ?thesis using assms(1) by simp
qed

lemma statevector_storage:
  assumes r: "storage_regs n p u m" and ok: "patterns_ok (length p) vals"
    and len: "length vals \<le> N" and N: "0 < N"
  shows "statevector n ([XGate (u ! 1)] @ storage_gates N p u m 0 vals) zero_state
       = Some (memory_state N u m vals)"
proof -
  have "statevector n (storage_gates N p u m (length ([] :: int list)) vals)
          (memory_state N u m [])
      = Some (memory_state N u m ([] @ vals))"
    using r by (rule statevector_storage_gates) (use ok len in simp_all)
  then have s: "statevector n (storage_gates N p u m 0 vals) (memory_state N u m [])
      = Some (memory_state N u m vals)"
    by simp
  show ?thesis
    by (simp only: statevector_append [of n "[XGate (u ! 1)]"]
        statevector_initial [OF storage_regs_D(20) [OF r] N, where m = m] option.case s)
qed

subsection \<open>Amplitudes of the memory state\<close>

lemma patterns_ok_take: "patterns_ok w vals \<Longrightarrow> patterns_ok w (take i vals)"
  by (auto simp: patterns_ok_def list_all_iff dest: in_set_takeD)

lemma memory_state_proc:
  "memory_state N u m past (proc_index u)
     = complex_of_real (sqrt (real (N - length past) / real N))"
  by (simp add: memory_state_def)

lemma memory_state_stored:
  assumes "storage_regs n p u m" and "patterns_ok (length p) past" and "val \<in> set past"
  shows "memory_state N u m past (stored_index m val) = complex_of_real (1 / sqrt (real N))"
proof -
  have "\<bar>val\<bar> < 2 ^ length m"
    using patterns_okD(2) [OF assms(2,3)] storage_regs_D(11) [OF assms(1)] by simp
  then have "stored_index m val \<noteq> proc_index u" using assms(1) by (intro stored_ne_proc)
  then show ?thesis using assms(3) by (simp add: memory_state_def)
qed

lemma memory_state_other:
  "k \<noteq> proc_index u \<Longrightarrow> k \<notin> stored_index m ` set past \<Longrightarrow> memory_state N u m past k = 0"
  by (simp add: memory_state_def)

lemma memory_state_relative:
  assumes r: "storage_regs n p u m" and ok: "patterns_ok (length p) past"
    and val: "val \<in> set past" and N: "0 < N"
  shows "cmod (memory_state N u m past (stored_index m val))
       = 1 / sqrt (real (length past))
         * sqrt (\<Sum>a\<in>set past. (cmod (memory_state N u m past (stored_index m a)))\<^sup>2)"
proof -
  let ?i = "length past"
  have i: "0 < ?i" using val by (cases past) auto
  have "(\<Sum>a\<in>set past. (cmod (memory_state N u m past (stored_index m a)))\<^sup>2)
      = (\<Sum>a\<in>set past. 1 / real N)"
  proof (rule sum.cong [OF refl])
    fix a assume "a \<in> set past"
    then have "memory_state N u m past (stored_index m a) = complex_of_real (1 / sqrt (real N))"
      using r ok by (intro memory_state_stored)
    then show "(cmod (memory_state N u m past (stored_index m a)))\<^sup>2 = 1 / real N"
      using N by (simp add: norm_divide power_divide)
  qed
  also have "\<dots> = real (card (set past)) * (1 / real N)" by simp
  also have "card (set past) = ?i" using ok by (simp add: patterns_ok_def distinct_card)
  finally have s: "(\<Sum>a\<in>set past. (cmod (memory_state N u m past (stored_index m a)))\<^sup>2)
      = real ?i / real N" by simp
  have "1 / sqrt (real ?i) * sqrt (real ?i / real N) = 1 / sqrt (real N)"
    using i by (simp add: real_sqrt_divide)
  moreover have "cmod (memory_state N u m past (stored_index m val)) = 1 / sqrt (real N)"
    using memory_state_stored [OF r ok val, of N] N by (simp add: norm_divide)
  ultimately show ?thesis by (simp only: s)
qed

subsection \<open>Storing a pattern that is in the memory already\<close>

lemma body_state_duplicate:
  assumes r: "storage_regs n p u m" and ok: "patterns_ok (length p) past"
    and val: "val \<in> set past"
  shows "body_state \<theta> p u m val (memory_state N u m past) (proc_index u)
       = complex_of_real (sin (\<theta> / 2)) * complex_of_real (1 / sqrt (real N))
         + complex_of_real (cos (\<theta> / 2))
           * complex_of_real (sqrt (real (N - length past) / real N))"
    and "body_state \<theta> p u m val (memory_state N u m past) (stored_index m val)
       = complex_of_real (cos (\<theta> / 2)) * complex_of_real (1 / sqrt (real N))
         - complex_of_real (sin (\<theta> / 2))
           * complex_of_real (sqrt (real (N - length past) / real N))"
proof -
  note d = storage_regs_D [OF r]
  have v: "\<bar>val\<bar> < 2 ^ length p" using patterns_okD(2) [OF ok val] .
  have vm: "\<bar>val\<bar> < 2 ^ length m" using v d(11) by simp
  let ?P = "proc_index u" and ?S = "stored_index m val"
  have MP: "matches p u m val ?P" using r v by (rule matches_proc)
  have GP: "partner p u m val ?P = ?S" using r v by (rule partner_proc)
  have GS: "partner p u m val ?S = ?P" using partner_partner [OF r v, of ?P] by (simp only: GP)
  have MS: "matches p u m val ?S" using matches_partner [OF r v, of ?P] MP by (simp only: GP)
  have Pu1: "bit ?P (u ! 1)" by (simp add: bit_proc_index)
  have Su1: "\<not> bit ?S (u ! 1)" using vm d(16) by (rule bit_stored_index_other)
  show "body_state \<theta> p u m val (memory_state N u m past) ?P
       = complex_of_real (sin (\<theta> / 2)) * complex_of_real (1 / sqrt (real N))
         + complex_of_real (cos (\<theta> / 2))
           * complex_of_real (sqrt (real (N - length past) / real N))"
    using MP Pu1
    by (simp only: body_state_def GP memory_state_proc memory_state_stored [OF r ok val] if_True)
  show "body_state \<theta> p u m val (memory_state N u m past) ?S
       = complex_of_real (cos (\<theta> / 2)) * complex_of_real (1 / sqrt (real N))
         - complex_of_real (sin (\<theta> / 2))
           * complex_of_real (sqrt (real (N - length past) / real N))"
    using MS Su1
    by (simp only: body_state_def GS memory_state_proc memory_state_stored [OF r ok val]
        if_True if_False)
qed

lemma register_zero_body_state:
  assumes r: "storage_regs n p u m" and v: "\<bar>val\<bar> < 2 ^ length p"
    and z: "register_zero n p \<psi>"
  shows "register_zero n p (body_state \<theta> p u m val \<psi>)"
  unfolding register_zero_def
proof (intro allI impI)
  fix k :: nat
  assume k: "k < 2 ^ n" and "\<exists>q\<in>set p. bit k q"
  then obtain j where j: "j < length p" "bit k (p ! j)" by (auto simp: in_set_conv_nth)
  let ?g = "partner p u m val k"
  have "\<psi> k = 0" using z k j by (auto simp: register_zero_def)
  moreover have "\<psi> ?g = 0"
  proof -
    have "?g < 2 ^ n" using k by (simp only: partner_lt [OF r v])
    moreover have "bit ?g (p ! j)" using j(2) by (simp only: bit_partner_p [OF r v j(1)])
    ultimately show ?thesis using z j(1) by (auto simp: register_zero_def)
  qed
  ultimately show "body_state \<theta> p u m val \<psi> k = 0" by (simp add: body_state_def)
qed

lemma register_avoids_h_op:
  assumes "c \<notin> set m" and "c < n" and a: "register_avoids n m v \<psi>"
  shows "register_avoids n m v (h_op c \<psi>)"
  unfolding register_avoids_def
proof (intro allI impI)
  fix k :: nat
  assume k: "k < 2 ^ n" and val: "\<forall>j<length m. bit k (m ! j) = bit v j"
  have ne: "\<And>j. j < length m \<Longrightarrow> m ! j \<noteq> c" using assms(1) by auto
  have "\<psi> (unset_bit c k) = 0"
  proof -
    have "unset_bit c k < 2 ^ n" using assms(2) k by (rule unset_bit_lt)
    moreover have "\<forall>j<length m. bit (unset_bit c k) (m ! j) = bit v j"
      using val ne by (auto simp: bit_unset_bit_iff)
    ultimately show ?thesis using a by (simp add: register_avoids_def)
  qed
  moreover have "\<psi> (set_bit c k) = 0"
  proof -
    have "set_bit c k < 2 ^ n" using assms(2) k by simp
    moreover have "\<forall>j<length m. bit (set_bit c k) (m ! j) = bit v j"
      using val ne by (auto simp: bit_set_bit_iff)
    ultimately show ?thesis using a by (simp add: register_avoids_def)
  qed
  ultimately show "h_op c \<psi> k = 0" by (simp add: h_op_def)
qed

lemma register_avoids_phase:
  "register_avoids n m v \<psi> \<Longrightarrow> register_avoids n m v (\<lambda>k. ph k * \<psi> k)"
  by (simp add: register_avoids_def)

lemma register_avoids_retrieval:
  assumes r: "retrieval_regs n i m c" and a: "register_avoids n m v \<psi>"
  shows "register_avoids n m v
           (h_op c (\<lambda>k. phases (retrieval_middle i m c) k * h_op c \<psi> k))"
proof -
  note d = retrieval_regs_D [OF r]
  have "register_avoids n m v (h_op c \<psi>)" using d(5) d(8) a by (rule register_avoids_h_op)
  then have "register_avoids n m v (\<lambda>k. phases (retrieval_middle i m c) k * h_op c \<psi> k)"
    by (rule register_avoids_phase)
  then show ?thesis using d(5) d(8) by (intro register_avoids_h_op)
qed

lemma small_regs: "storage_regs 4 [0] [1, 2] [3]"
  by (simp add: storage_regs_def)

lemma pauli_qubits_one: "pauli_qubits 1 [q] = [q]"
  by (simp add: pauli_qubits_def format_b_def zero_fill_def bin_digits_1)

lemma stored_index_small: "stored_index [3] 1 = 8"
  by (simp add: stored_index_def pauli_qubits_one)

lemma proc_index_small: "proc_index [1, 2] = 4"
  by (simp add: proc_index_def)

lemma store_one_small:
  "final_amplitude 4 (storage_algorithm [XGate 2] [1] [0] [1, 2] [3]) 8 = Some 1"
proof -
  have ok: "patterns_ok (length [0 :: nat]) [1]" by (simp add: patterns_ok_def)
  have b0: "storage_algorithm [XGate 2] [1] [0] [1, 2] [3]
         = Inr ([XGate 2] @ storage_gates (length [1 :: int]) [0] [1, 2] [3] 0 [1])"
    by (rule storage_algorithm_eq) simp_all
  have b: "storage_algorithm [XGate 2] [1] [0] [1, 2] [3]
         = Inr ([XGate 2] @ storage_gates 1 [0] [1, 2] [3] 0 [1])"
    unfolding b0 by simp
  have "statevector 4 ([XGate ([1, 2] ! 1)] @ storage_gates 1 [0] [1, 2] [3] 0 [1]) zero_state
      = Some (memory_state 1 [1, 2] [3] [1])"
    using small_regs ok by (rule statevector_storage) simp_all
  then have s: "statevector 4 ([XGate 2] @ storage_gates 1 [0] [1, 2] [3] 0 [1]) zero_state
      = Some (memory_state 1 [1, 2] [3] [1])"
    by simp
  have "memory_state 1 [1, 2] [3] [1] (stored_index [3] 1) = complex_of_real (1 / sqrt (real 1))"
    using small_regs ok by (rule memory_state_stored) simp
  then have a: "memory_state 1 [1, 2] [3] [1] 8 = 1" by (simp add: stored_index_small)
  show ?thesis unfolding final_amplitude_def b by (simp only: sum.case s option.case a)
qed

lemma store_twice_small:
  shows "final_amplitude 4 (storage_algorithm [XGate 2] [1, 1] [0] [1, 2] [3]) 4
     = Some (- complex_of_real (1 / sqrt 2))"
  and "final_amplitude 4 (storage_algorithm [XGate 2] [1, 1] [0] [1, 2] [3]) 8
     = Some (complex_of_real (1 / sqrt 2))"
proof -
  let ?p = "[0 :: nat]" and ?u = "[1, 2 :: nat]" and ?m = "[3 :: nat]"
  have ok: "patterns_ok (length ?p) [1]" by (simp add: patterns_ok_def)
  have v: "\<bar>1 :: int\<bar> < 2 ^ length ?p" by simp
  let ?\<theta> = "step_angle 2 1"
  let ?b2 = "body_gates (Num ?\<theta>) ?p ?u ?m 1"
  let ?g1 = "[XGate 2] @ storage_gates 2 ?p ?u ?m 0 [1]"
  have b0: "storage_algorithm [XGate 2] [1, 1] ?p ?u ?m
          = Inr ([XGate 2] @ storage_gates (length [1, 1 :: int]) ?p ?u ?m 0 [1, 1])"
    by (rule storage_algorithm_eq) simp_all
  have g: "storage_gates (length [1, 1 :: int]) ?p ?u ?m 0 [1, 1]
         = storage_gates 2 ?p ?u ?m 0 [1] @ ?b2"
    by (simp add: numeral_2_eq_2)
  have b: "storage_algorithm [XGate 2] [1, 1] ?p ?u ?m = Inr (?g1 @ ?b2)"
    by (simp only: b0 g append_assoc)
  have "statevector 4 ([XGate (?u ! 1)] @ storage_gates 2 ?p ?u ?m 0 [1]) zero_state
      = Some (memory_state 2 ?u ?m [1])"
    using small_regs ok by (rule statevector_storage) simp_all
  then have s1: "statevector 4 ?g1 zero_state = Some (memory_state 2 ?u ?m [1])" by simp
  have s2: "statevector 4 ?b2 (memory_state 2 ?u ?m [1])
          = Some (body_state ?\<theta> ?p ?u ?m 1 (memory_state 2 ?u ?m [1]))"
    using small_regs v by (rule statevector_body)
  have s: "statevector 4 (?g1 @ ?b2) zero_state
         = Some (body_state ?\<theta> ?p ?u ?m 1 (memory_state 2 ?u ?m [1]))"
    by (simp only: statevector_append [of 4 ?g1] s1 option.case s2)
  have c: "cos (?\<theta> / 2) = 0" using cos_step_angle [of 1 2] by simp
  have sn: "sin (?\<theta> / 2) = - 1" using sin_step_angle [of 1 2] by simp
  have mem: "(1 :: int) \<in> set [1]" by simp
  have P0: "body_state ?\<theta> ?p ?u ?m 1 (memory_state 2 ?u ?m [1]) (proc_index ?u)
       = complex_of_real (sin (?\<theta> / 2)) * complex_of_real (1 / sqrt (real 2))
         + complex_of_real (cos (?\<theta> / 2))
           * complex_of_real (sqrt (real (2 - length [1 :: int]) / real 2))"
    using small_regs ok mem by (rule body_state_duplicate(1))
  have P: "body_state ?\<theta> ?p ?u ?m 1 (memory_state 2 ?u ?m [1]) 4
         = - complex_of_real (1 / sqrt 2)"
    using P0 unfolding proc_index_small c sn by simp
  have S0: "body_state ?\<theta> ?p ?u ?m 1 (memory_state 2 ?u ?m [1]) (stored_index ?m 1)
       = complex_of_real (cos (?\<theta> / 2)) * complex_of_real (1 / sqrt (real 2))
         - complex_of_real (sin (?\<theta> / 2))
           * complex_of_real (sqrt (real (2 - length [1 :: int]) / real 2))"
    using small_regs ok mem by (rule body_state_duplicate(2))
  have S: "body_state ?\<theta> ?p ?u ?m 1 (memory_state 2 ?u ?m [1]) 8
         = complex_of_real (1 / sqrt 2)"
    using S0 unfolding stored_index_small c sn by (simp add: real_sqrt_divide)
  show "final_amplitude 4 (storage_algorithm [XGate 2] [1, 1] ?p ?u ?m) 4
     = Some (- complex_of_real (1 / sqrt 2))"
    unfolding final_amplitude_def b by (simp only: sum.case s option.case P)
  show "final_amplitude 4 (storage_algorithm [XGate 2] [1, 1] ?p ?u ?m) 8
     = Some (complex_of_real (1 / sqrt 2))"
    unfolding final_amplitude_def b by (simp only: sum.case s option.case S)
qed

lemma step_angle_nat:
  assumes "idx < N"
  shows "step_angle N idx = - 2 * arccos (sqrt (real (N - idx - 1) / real (N - idx)))"
  using step_angle_half [OF assms] by simp

lemma register_zero_zero_state: "register_zero n qs zero_state"
  by (auto simp: register_zero_def zero_state_def)

lemma register_avoids_zero_state:
  assumes "j < length qs" and "bit v j"
  shows "register_avoids n qs v zero_state"
  unfolding register_avoids_def zero_state_def
proof (intro allI impI)
  fix k :: nat
  assume "k < 2 ^ n" and "\<forall>j<length qs. bit k (qs ! j) = bit v j"
  then have "bit k (qs ! j)" using assms by simp
  then have "k \<noteq> 0" by (cases "k = 0") auto
  then show "(if k = 0 then 1 else 0) = (0 :: complex)" by simp
qed

lemma storage_regs_retrieval:
  assumes "storage_regs n p u m"
  shows "retrieval_regs n p m (u ! 0)"
proof -
  note d = storage_regs_D [OF assms]
  show ?thesis
    unfolding retrieval_regs_def
    using d(1,2,4,7,8,11,15,17,19) by (auto simp: list_all_iff)
qed

section \<open>The claims\<close>

text \<open>
  C4. From a normalized state, the state after every single gate of the storage and
  retrieval sequences is defined and normalized: for well-formed registers and patterns
  that fit the pattern register, the storage sequence followed by a query loading and the
  retrieval sequence is built without error, and after every prefix of the resulting gate
  list the squared magnitudes of the amplitudes sum to exactly 1. Amplitudes are exact
  complex numbers here, so the sum is 1 and not only within a tolerance.
\<close>

theorem gate_sequences_keep_norm:
  assumes "storage_regs n p u m" and "retrieval_regs n i m' c"
    and "\<forall>val\<in>set ps. \<bar>val\<bar> < 2 ^ length p"
    and "gates_ok n qc" and "gates_ok n query"
    and "norm2 n \<psi> = 1"
  shows "\<exists>qc1 qc2. storage_algorithm qc ps p u m = Inr qc1
           \<and> retrieval_algorithm (qc1 @ query) i m' c = Inr qc2
           \<and> (\<forall>gs. prefix gs qc2 \<longrightarrow>
                 (\<exists>\<phi>. statevector n gs \<psi> = Some \<phi> \<and> norm2 n \<phi> = 1))"
proof -
  note d = storage_regs_D [OF assms(1)]
  let ?qc1 = "qc @ storage_gates (length ps) p u m 0 ps"
  let ?qc2 = "(?qc1 @ query) @ retrieval_gates i m' c"
  have s: "storage_algorithm qc ps p u m = Inr ?qc1"
    using assms(3) d(10,11) by (intro storage_algorithm_eq) auto
  have r: "retrieval_algorithm (?qc1 @ query) i m' c = Inr ?qc2"
    using retrieval_regs_D(9) [OF assms(2)] by (rule retrieval_algorithm_eq)
  have ok: "gates_ok n ?qc2"
    using assms(4,5) gates_ok_storage [OF assms(1,3)] gates_ok_retrieval [OF assms(2)]
    by simp
  have "\<forall>gs. prefix gs ?qc2 \<longrightarrow> (\<exists>\<phi>. statevector n gs \<psi> = Some \<phi> \<and> norm2 n \<phi> = 1)"
    using norm2_prefix [OF ok] assms(6) by metis
  then show ?thesis using s r by blast
qed

theorem gate_sequences_keep_norm_witness:
  "storage_regs 8 [0, 1, 2] [3, 4] [5, 6, 7] \<and> retrieval_regs 8 [0, 1, 2] [5, 6, 7] 3
   \<and> list_all (\<lambda>val. \<bar>val\<bar> < 2 ^ length [0, 1, 2 :: nat]) [1, 4 :: int]
   \<and> gates_ok 8 [XGate 4] \<and> gates_ok 8 [XGate 2] \<and> norm2 8 zero_state = 1
   \<and> (\<exists>qc1 qc2. storage_algorithm [XGate 4] [1, 4] [0, 1, 2] [3, 4] [5, 6, 7] = Inr qc1
           \<and> retrieval_algorithm (qc1 @ [XGate 2]) [0, 1, 2] [5, 6, 7] 3 = Inr qc2
           \<and> (\<forall>gs. prefix gs qc2 \<longrightarrow>
                 (\<exists>\<phi>. statevector 8 gs zero_state = Some \<phi> \<and> norm2 8 \<phi> = 1)))"
proof -
  have h1: "storage_regs 8 [0, 1, 2] [3, 4] [5, 6, 7]" by (simp add: storage_regs_def)
  have h2: "retrieval_regs 8 [0, 1, 2] [5, 6, 7] 3" by (simp add: retrieval_regs_def)
  have h3: "\<forall>val\<in>set [1, 4 :: int]. \<bar>val\<bar> < 2 ^ length [0, 1, 2 :: nat]" by simp
  have h4: "gates_ok 8 [XGate 4]" and h5: "gates_ok 8 [XGate 2]" by simp_all
  have h6: "norm2 8 zero_state = 1" by (rule norm2_zero_state)
  show ?thesis
    using h1 h2 h4 h5 h6 gate_sequences_keep_norm [OF h1 h2 h3 h4 h5 h6] by simp
qed

text \<open>
  C5 (as amended). With \<open>n = |M|\<close>, for a control qubit \<open>C\<close> outside \<open>M\<close> and qubits of
  the circuit, the controlled exponential-phase operator appends exactly: for each qubit
  \<open>q\<close> of \<open>M\<close>, a phase rotation of angle \<open>\<pi>/(2n)\<close> on \<open>q\<close> between two bit-flips of \<open>q\<close>;
  then, for each qubit \<open>q\<close> of \<open>M\<close>, a controlled phase rotation of angle \<open>-\<pi>/n\<close> with \<open>C\<close>
  as control, itself between two bit-flips of \<open>q\<close> controlled by \<open>C\<close>. Each of these gates
  is one the circuit accepts.
\<close>

theorem apply_u_and_cu_gate_list:
  assumes "c \<notin> set m" and "c < nq" and "\<forall>q\<in>set m. q < nq"
  shows "apply_u_and_cu qc m c =
     Inr (qc
          @ concat (map (\<lambda>q. [XGate q, PhaseGate (pi / (2 * real (length m))) q, XGate q]) m)
          @ concat (map (\<lambda>q. [CXGate c q, CPhaseGate (- pi / real (length m)) c q,
                                CXGate c q]) m))
     \<and> gates_ok nq
          (concat (map (\<lambda>q. [XGate q, PhaseGate (pi / (2 * real (length m))) q, XGate q]) m)
           @ concat (map (\<lambda>q. [CXGate c q, CPhaseGate (- pi / real (length m)) c q,
                                 CXGate c q]) m))"
  using gates_ok_u_and_cu [OF assms] by (simp add: apply_u_and_cu_eq u_and_cu_gates_def)

theorem apply_u_and_cu_gate_list_witness:
  "(1::nat) \<notin> set [0] \<and> (1::nat) < 2 \<and> list_all (\<lambda>q. q < 2) [0 :: nat]
   \<and> apply_u_and_cu [] [0] 1 =
     Inr [XGate 0, PhaseGate (pi / 2) 0, XGate 0, CXGate 1 0, CPhaseGate (- pi) 1 0, CXGate 1 0]
   \<and> gates_ok 2
        [XGate 0, PhaseGate (pi / 2) 0, XGate 0, CXGate 1 0, CPhaseGate (- pi) 1 0, CXGate 1 0]"
proof -
  have h1: "(1::nat) \<notin> set [0]" and h2: "(1::nat) < 2" and h3: "\<forall>q\<in>set [0 :: nat]. q < 2"
    by simp_all
  show ?thesis using apply_u_and_cu_gate_list [OF h1 h2 h3, of "[]"] by simp
qed

text \<open>
  The operator as the claim words it, with bare controlled phase rotations, is not what
  the code appends: on one memory qubit the two gate lists differ.
\<close>

theorem apply_u_and_cu_not_bare_phases:
  "apply_u_and_cu [] [0] 1 \<noteq> Inr (spec_u_and_cu [0] 1)"
  by (simp add: apply_u_and_cu_eq u_and_cu_gates_def spec_u_and_cu_def)

text \<open>
  C6. For a non-negative value that fits the register, encoding it twice into the same
  register succeeds both times, and the gates of the two encodings together are the
  identity on every state of a circuit that contains the register.
\<close>

theorem encode_twice_identity:
  assumes "0 \<le> v" and "v < 2 ^ length qubits" and "\<forall>q\<in>set qubits. q < n"
  shows "\<exists>g1 g2. apply_pauli_from_int qc v qubits = Inr (qc @ g1)
           \<and> apply_pauli_from_int (qc @ g1) v qubits = Inr (qc @ g1 @ g2)
           \<and> statevector n (g1 @ g2) \<psi> = Some \<psi>"
proof -
  have fit: "\<bar>v\<bar> < 2 ^ length qubits" using assms(1,2) by simp
  let ?g = "map XGate (pauli_qubits v qubits)"
  have "\<forall>q\<in>set (pauli_qubits v qubits). q < n"
    using set_pauli_qubits_subset [OF fit] assms(3) by blast
  then have "statevector n (?g @ ?g) \<psi> = Some \<psi>" by (rule statevector_x_twice)
  moreover have "apply_pauli_from_int qc v qubits = Inr (qc @ ?g)"
    using fit by (simp add: apply_pauli_from_int_eq)
  moreover have "apply_pauli_from_int (qc @ ?g) v qubits = Inr (qc @ ?g @ ?g)"
    using fit by (simp add: apply_pauli_from_int_eq)
  ultimately show ?thesis by blast
qed

theorem encode_twice_identity_witness:
  "(0::int) \<le> 5 \<and> (5::int) < 2 ^ length [0, 1, 2 :: nat] \<and> list_all (\<lambda>q. q < 3) [0, 1, 2 :: nat]
   \<and> (\<exists>g1 g2. apply_pauli_from_int [] 5 [0, 1, 2] = Inr ([] @ g1)
           \<and> apply_pauli_from_int ([] @ g1) 5 [0, 1, 2] = Inr ([] @ g1 @ g2)
           \<and> statevector 3 (g1 @ g2) zero_state = Some zero_state)"
proof -
  have h1: "(0::int) \<le> 5" and h2: "(5::int) < 2 ^ length [0, 1, 2 :: nat]"
    and h3: "\<forall>q\<in>set [0, 1, 2 :: nat]. q < 3" by simp_all
  show ?thesis
    using encode_twice_identity [OF h1 h2 h3, of "[]" zero_state] by simp
qed

text \<open>
  C7 (as amended). \<open>find_angle\<close> has no domain check of its own: it fails exactly at
  \<open>j = 0\<close>, with the division by zero, and for every other integer, negative or positive,
  it returns without failing. At \<open>j = -1\<close> what it returns is nan. At the boundary,
  \<open>find_angle(1)\<close> is \<open>-\<pi>\<close>.
\<close>

theorem find_angle_domain:
  "((\<exists>e. find_angle j = Inl e) \<longleftrightarrow> j = 0)
   \<and> find_angle 0 = Inl ZeroDivisionError
   \<and> find_angle (- 1) = Inr NaN
   \<and> find_angle 1 = Inr (Num (- pi))"
proof -
  have "(\<exists>e. find_angle j = Inl e) \<longleftrightarrow> j = 0" by (simp add: find_angle_def)
  then show ?thesis by (simp add: find_angle_0 find_angle_1 find_angle_neg)
qed

theorem find_angle_domain_witness:
  "(\<exists>e. find_angle 0 = Inl e) \<and> \<not> (\<exists>e. find_angle 5 = Inl e)
   \<and> \<not> (\<exists>e. find_angle (- 7) = Inl e)"
  using find_angle_domain [of 0] find_angle_domain [of 5] find_angle_domain [of "- 7"]
  by simp

text \<open>At \<open>j = -1\<close> the schedule returns normally, with the value nan.\<close>

theorem find_angle_negative_returns:
  "find_angle (- 1) = Inr NaN"
  by (simp add: find_angle_neg)

text \<open>
  C8 (as amended). There is no overflow error and no width check. For a register of
  qubits of the circuit, encoding a value fails exactly when the magnitude of the value
  needs more bits than the register has qubits, and the failure is the index error raised
  where the encoding indexes the register at a set bit beyond its width, the error any
  out-of-range register index raises; for a value that fits it succeeds and extends the
  circuit by gates the circuit accepts.
\<close>

theorem encode_overflow:
  assumes "\<forall>q\<in>set qubits. q < nq"
  shows "(2 ^ length qubits \<le> \<bar>v\<bar> \<longrightarrow> apply_pauli_from_int qc v qubits = Inl IndexError)
   \<and> (\<bar>v\<bar> < 2 ^ length qubits \<longrightarrow>
        (\<exists>gs. apply_pauli_from_int qc v qubits = Inr (qc @ gs) \<and> gates_ok nq gs))"
proof (cases "\<bar>v\<bar> < 2 ^ length qubits")
  case True
  then have "gates_ok nq (map XGate (pauli_qubits v qubits))"
    using assms by (rule gates_ok_pauli)
  then show ?thesis using True by (simp add: apply_pauli_from_int_eq)
next
  case False
  then show ?thesis by (simp add: apply_pauli_from_int_eq)
qed

theorem encode_overflow_witness:
  "list_all (\<lambda>q. q < 3) [0, 1, 2 :: nat]
   \<and> 2 ^ length [0, 1, 2 :: nat] \<le> \<bar>9 :: int\<bar>
   \<and> apply_pauli_from_int [] 9 [0, 1, 2] = Inl IndexError
   \<and> \<bar>5 :: int\<bar> < 2 ^ length [0, 1, 2 :: nat]
   \<and> (\<exists>gs. apply_pauli_from_int [] 5 [0, 1, 2] = Inr ([] @ gs) \<and> gates_ok 3 gs)"
proof -
  have h: "\<forall>q\<in>set [0, 1, 2 :: nat]. q < 3" by simp
  show ?thesis
    using encode_overflow [OF h, of 9 "[]"] encode_overflow [OF h, of 5 "[]"] by simp
qed

text \<open>
  A value one bit too wide for a register of three qubits fails with the index error of
  the register access, not with an error of the encoding's own.
\<close>

theorem encode_overflow_is_index_error:
  "apply_pauli_from_int [] 9 [0, 1, 2] = Inl IndexError"
  by (simp add: apply_pauli_from_int_eq)

text \<open>
  C9. The threshold parameter of the superposed-query variant is inert: two runs that
  differ only in the threshold build the same gate list (or fail alike), hence reach the
  same final state from the same initial state.
\<close>

theorem bv_algorithm_threshold_inert:
  "bv_algorithm qc i m c (t1 :: 'a) = bv_algorithm qc i m c (t2 :: 'b)
   \<and> (case bv_algorithm qc i m c t1 of Inl e \<Rightarrow> None | Inr gs \<Rightarrow> statevector n gs \<psi>)
     = (case bv_algorithm qc i m c t2 of Inl e \<Rightarrow> None | Inr gs \<Rightarrow> statevector n gs \<psi>)"
  by (simp add: bv_algorithm_def)

theorem bv_algorithm_threshold_inert_witness:
  "bv_algorithm [] [0] [1] 2 (0 :: real) = bv_algorithm [] [0] [1] 2 (7 :: real)
   \<and> (case bv_algorithm [] [0] [1] 2 (0 :: real) of Inl e \<Rightarrow> None
        | Inr gs \<Rightarrow> statevector 3 gs zero_state)
     = (case bv_algorithm [] [0] [1] 2 (7 :: real) of Inl e \<Rightarrow> None
        | Inr gs \<Rightarrow> statevector 3 gs zero_state)"
  using bv_algorithm_threshold_inert [of "[]" "[0]" "[1]" 2 "0 :: real" "7 :: real" 3 zero_state]
  by simp

text \<open>
  C10. For every state before it, the retrieval sequence leaves the probability of every
  value of the memory register \<open>M\<close> unchanged. On well-formed registers it is built without
  error, and its effect is a Hadamard gate on the control qubit, a multiplication of
  every amplitude by a phase of modulus 1 (the bit-flips on \<open>M\<close> cancel), and a Hadamard
  gate on the control qubit again; so \<open>P(M = v)\<close> after retrieval equals \<open>P(M = v)\<close> before,
  for every \<open>v\<close>.
\<close>

theorem retrieval_keeps_memory_distribution:
  assumes "retrieval_regs n i m c"
  shows "\<exists>gs \<phi> ph. retrieval_algorithm qc i m c = Inr (qc @ gs)
           \<and> statevector n gs \<psi> = Some \<phi>
           \<and> (\<forall>k. cmod (ph k) = 1)
           \<and> \<phi> = h_op c (\<lambda>k. ph k * h_op c \<psi> k)
           \<and> probability n m v \<phi> = probability n m v \<psi>"
proof -
  let ?ph = "phases (retrieval_middle i m c)"
  let ?\<phi> = "h_op c (\<lambda>k. ?ph k * h_op c \<psi> k)"
  have "retrieval_algorithm qc i m c = Inr (qc @ retrieval_gates i m c)"
    using retrieval_regs_D(9) [OF assms] by (rule retrieval_algorithm_eq)
  moreover have "statevector n (retrieval_gates i m c) \<psi> = Some ?\<phi>"
    using assms by (rule statevector_retrieval)
  moreover have "\<forall>k. cmod (?ph k) = 1" by simp
  moreover have "probability n m v ?\<phi> = probability n m v \<psi>"
    using assms by (rule probability_retrieval)
  ultimately show ?thesis by blast
qed

theorem retrieval_keeps_memory_distribution_witness:
  "retrieval_regs 8 [0, 1, 2] [5, 6, 7] 3
   \<and> (\<exists>gs \<phi> ph. retrieval_algorithm [] [0, 1, 2] [5, 6, 7] 3 = Inr ([] @ gs)
           \<and> statevector 8 gs zero_state = Some \<phi>
           \<and> (\<forall>k. cmod (ph k) = 1)
           \<and> \<phi> = h_op 3 (\<lambda>k. ph k * h_op 3 zero_state k)
           \<and> probability 8 [5, 6, 7] 4 \<phi> = probability 8 [5, 6, 7] 4 zero_state)"
proof -
  have h: "retrieval_regs 8 [0, 1, 2] [5, 6, 7] 3" by (simp add: retrieval_regs_def)
  show ?thesis
    using h retrieval_keeps_memory_distribution [OF h, of "[]" zero_state 4] by simp
qed




text \<open>
  C2 (as amended). Storing an ordered list of \<open>N\<close> pairwise distinct non-negative pattern
  values that fit the pattern register, from the all-zero state with \<open>u1\<close> set, folds them
  into one superposition: after the pattern of load index \<open>i\<close> each of the \<open>i\<close> stored
  patterns has amplitude \<open>1/\<surd>N\<close>, the processing term has amplitude \<open>\<surd>((N-i)/N)\<close> and every
  other basis state has none, so that each stored pattern has weight \<open>1/\<surd>i\<close> relative to
  the stored part of the superposition. The folding is done per pattern by the controlled
  rotation on \<open>(u0, u1)\<close> with angle \<open>-2 arccos \<surd>((j-1)/j)\<close>, where
  \<open>j = N + 1 - load_index\<close>.
\<close>

theorem storage_superposition:
  assumes r: "storage_regs n p u m" and ok: "patterns_ok (length p) ps"
    and i: "i \<le> length ps" and ne: "ps \<noteq> []"
  shows "(\<exists>gs \<phi>.
       storage_loop [XGate (u ! 1)] (length ps) p u m 0 (take i ps)
         = Inr ([XGate (u ! 1)] @ gs)
     \<and> (i = length ps \<longrightarrow>
          storage_algorithm [XGate (u ! 1)] ps p u m = Inr ([XGate (u ! 1)] @ gs))
     \<and> statevector n ([XGate (u ! 1)] @ gs) zero_state = Some \<phi>
     \<and> (\<forall>val\<in>set (take i ps).
          \<phi> (stored_index m val) = complex_of_real (1 / sqrt (real (length ps))))
     \<and> \<phi> (proc_index u) = complex_of_real (sqrt (real (length ps - i) / real (length ps)))
     \<and> (\<forall>k. k \<noteq> proc_index u \<and> k \<notin> stored_index m ` set (take i ps) \<longrightarrow> \<phi> k = 0)
     \<and> (\<forall>val\<in>set (take i ps).
          cmod (\<phi> (stored_index m val))
            = 1 / sqrt (real i)
              * sqrt (\<Sum>a\<in>set (take i ps). (cmod (\<phi> (stored_index m a)))\<^sup>2)))
   \<and> (\<forall>load_index. 1 \<le> load_index \<and> load_index \<le> length ps \<longrightarrow>
        (\<exists>g1 g2. storage_body qc (length ps) p u m (load_index - 1) (ps ! (load_index - 1))
           = Inr (qc @ g1
                  @ [CRYGate
                       (Num (- 2 * arccos (sqrt (real (length ps + 1 - load_index - 1)
                                                 / real (length ps + 1 - load_index)))))
                       (u ! 0) (u ! 1)]
                  @ g2)))"
proof
  note d = storage_regs_D [OF r]
  let ?N = "length ps" and ?T = "take i ps"
  let ?gs = "storage_gates ?N p u m 0 ?T"
  let ?\<phi> = "memory_state ?N u m ?T"
  have N: "0 < ?N" using ne by simp
  have okT: "patterns_ok (length p) ?T" using ok by (rule patterns_ok_take)
  have lenT: "length ?T = i" using i by simp
  have fit: "\<forall>val\<in>set ?T. \<bar>val\<bar> < 2 ^ length p" using patterns_okD(2) [OF okT] by blast
  have loop: "storage_loop [XGate (u ! 1)] ?N p u m 0 ?T = Inr ([XGate (u ! 1)] @ ?gs)"
    using fit d(10,11) i by (intro storage_loop_eq) auto
  have full: "i = ?N \<longrightarrow> storage_algorithm [XGate (u ! 1)] ps p u m = Inr ([XGate (u ! 1)] @ ?gs)"
    using loop by (auto simp: storage_algorithm_def)
  have sv: "statevector n ([XGate (u ! 1)] @ ?gs) zero_state = Some ?\<phi>"
    using r okT _ N by (rule statevector_storage) simp
  have a: "\<forall>val\<in>set ?T. ?\<phi> (stored_index m val) = complex_of_real (1 / sqrt (real ?N))"
    using memory_state_stored [OF r okT] by blast
  have b: "?\<phi> (proc_index u) = complex_of_real (sqrt (real (?N - i) / real ?N))"
    by (simp only: memory_state_proc lenT)
  have c: "\<forall>k. k \<noteq> proc_index u \<and> k \<notin> stored_index m ` set ?T \<longrightarrow> ?\<phi> k = 0"
    using memory_state_other by blast
  have e: "\<forall>val\<in>set ?T. cmod (?\<phi> (stored_index m val))
            = 1 / sqrt (real i) * sqrt (\<Sum>a\<in>set ?T. (cmod (?\<phi> (stored_index m a)))\<^sup>2)"
    using memory_state_relative [OF r okT _ N] by (simp only: lenT) blast
  show "\<exists>gs \<phi>.
       storage_loop [XGate (u ! 1)] ?N p u m 0 ?T = Inr ([XGate (u ! 1)] @ gs)
     \<and> (i = ?N \<longrightarrow> storage_algorithm [XGate (u ! 1)] ps p u m = Inr ([XGate (u ! 1)] @ gs))
     \<and> statevector n ([XGate (u ! 1)] @ gs) zero_state = Some \<phi>
     \<and> (\<forall>val\<in>set ?T. \<phi> (stored_index m val) = complex_of_real (1 / sqrt (real ?N)))
     \<and> \<phi> (proc_index u) = complex_of_real (sqrt (real (?N - i) / real ?N))
     \<and> (\<forall>k. k \<noteq> proc_index u \<and> k \<notin> stored_index m ` set ?T \<longrightarrow> \<phi> k = 0)
     \<and> (\<forall>val\<in>set ?T.
          cmod (\<phi> (stored_index m val))
            = 1 / sqrt (real i) * sqrt (\<Sum>a\<in>set ?T. (cmod (\<phi> (stored_index m a)))\<^sup>2))"
    using loop full sv a b c e by blast
next
  note d = storage_regs_D [OF r]
  let ?N = "length ps"
  show "\<forall>load_index. 1 \<le> load_index \<and> load_index \<le> ?N \<longrightarrow>
        (\<exists>g1 g2. storage_body qc ?N p u m (load_index - 1) (ps ! (load_index - 1))
           = Inr (qc @ g1
                  @ [CRYGate
                       (Num (- 2 * arccos (sqrt (real (?N + 1 - load_index - 1)
                                                 / real (?N + 1 - load_index)))))
                       (u ! 0) (u ! 1)]
                  @ g2))"
  proof (intro allI impI)
    fix li assume li: "1 \<le> li \<and> li \<le> ?N"
    let ?idx = "li - 1"
    have idx: "?idx < ?N" using li by arith
    have "ps ! ?idx \<in> set ps" using idx by simp
    then have fit: "\<bar>ps ! ?idx\<bar> < 2 ^ length p" using patterns_okD(2) [OF ok] by blast
    have e1: "?N + 1 - li - 1 = ?N - ?idx - 1" and e2: "?N + 1 - li = ?N - ?idx"
      using li by arith+
    have "storage_body qc ?N p u m ?idx (ps ! ?idx)
        = Inr (qc @ body_gates (Num (step_angle ?N ?idx)) p u m (ps ! ?idx))"
      using fit d(10,11) idx by (intro storage_body_eq) auto
    then have "storage_body qc ?N p u m ?idx (ps ! ?idx)
        = Inr (qc @ compute_gates p u m (ps ! ?idx)
               @ [CRYGate (Num (- 2 * arccos (sqrt (real (?N + 1 - li - 1)
                                                     / real (?N + 1 - li))))) (u ! 0) (u ! 1)]
               @ uncompute_gates p u m (ps ! ?idx))"
      by (simp only: body_gates_def step_angle_nat [OF idx] e1 e2)
    then show "\<exists>g1 g2. storage_body qc ?N p u m ?idx (ps ! ?idx)
           = Inr (qc @ g1
                  @ [CRYGate
                       (Num (- 2 * arccos (sqrt (real (?N + 1 - li - 1) / real (?N + 1 - li)))))
                       (u ! 0) (u ! 1)]
                  @ g2)"
      by blast
  qed
qed

theorem storage_superposition_witness:
  "storage_regs 8 [0, 1, 2] [3, 4] [5, 6, 7] \<and> patterns_ok (length [0, 1, 2 :: nat]) [1, 4]
   \<and> (2 :: nat) \<le> length [1, 4 :: int] \<and> [1, 4 :: int] \<noteq> []
   \<and> (1 :: nat) \<le> 1 \<and> (1 :: nat) \<le> length [1, 4 :: int]
   \<and> (\<exists>gs \<phi>.
       storage_loop [XGate ([3, 4 :: nat] ! 1)] (length [1, 4 :: int]) [0, 1, 2 :: nat] [3, 4 :: nat] [5, 6, 7 :: nat] 0 (take (2 :: nat) [1, 4 :: int])
         = Inr ([XGate ([3, 4 :: nat] ! 1)] @ gs)
     \<and> ((2 :: nat) = length [1, 4 :: int] \<longrightarrow>
          storage_algorithm [XGate ([3, 4 :: nat] ! 1)] [1, 4 :: int] [0, 1, 2 :: nat] [3, 4 :: nat] [5, 6, 7 :: nat] = Inr ([XGate ([3, 4 :: nat] ! 1)] @ gs))
     \<and> statevector 8 ([XGate ([3, 4 :: nat] ! 1)] @ gs) zero_state = Some \<phi>
     \<and> (\<forall>val\<in>set (take (2 :: nat) [1, 4 :: int]).
          \<phi> (stored_index [5, 6, 7 :: nat] val) = complex_of_real (1 / sqrt (real (length [1, 4 :: int]))))
     \<and> \<phi> (proc_index [3, 4 :: nat]) = complex_of_real (sqrt (real (length [1, 4 :: int] - (2 :: nat)) / real (length [1, 4 :: int])))
     \<and> (\<forall>k. k \<noteq> proc_index [3, 4 :: nat] \<and> k \<notin> stored_index [5, 6, 7 :: nat] ` set (take (2 :: nat) [1, 4 :: int]) \<longrightarrow> \<phi> k = 0)
     \<and> (\<forall>val\<in>set (take (2 :: nat) [1, 4 :: int]).
          cmod (\<phi> (stored_index [5, 6, 7 :: nat] val))
            = 1 / sqrt (real (2 :: nat))
              * sqrt (\<Sum>a\<in>set (take (2 :: nat) [1, 4 :: int]). (cmod (\<phi> (stored_index [5, 6, 7 :: nat] a)))\<^sup>2)))
   \<and> (\<exists>g1 g2. storage_body ([] :: circuit) (length [1, 4 :: int]) [0, 1, 2 :: nat] [3, 4 :: nat] [5, 6, 7 :: nat] ((1 :: nat) - 1) ([1, 4 :: int] ! ((1 :: nat) - 1))
           = Inr (([] :: circuit) @ g1
                  @ [CRYGate
                       (Num (- 2 * arccos (sqrt (real (length [1, 4 :: int] + 1 - (1 :: nat) - 1)
                                                 / real (length [1, 4 :: int] + 1 - (1 :: nat))))))
                       ([3, 4 :: nat] ! 0) ([3, 4 :: nat] ! 1)]
                  @ g2))"
proof -
  have h1: "storage_regs 8 [0, 1, 2] [3, 4] [5, 6, 7]" by (simp add: storage_regs_def)
  have h2: "patterns_ok (length [0, 1, 2 :: nat]) [1, 4]" by (simp add: patterns_ok_def)
  have h3: "(2 :: nat) \<le> length [1, 4 :: int]" and h4: "[1, 4 :: int] \<noteq> []" by simp_all
  have h5: "(1 :: nat) \<le> 1 \<and> (1 :: nat) \<le> length [1, 4 :: int]" by simp
  note th = storage_superposition [OF h1 h2 h3 h4, of "[]"]
  have A: "(\<exists>gs \<phi>.
       storage_loop [XGate ([3, 4 :: nat] ! 1)] (length [1, 4 :: int]) [0, 1, 2 :: nat] [3, 4 :: nat] [5, 6, 7 :: nat] 0 (take (2 :: nat) [1, 4 :: int])
         = Inr ([XGate ([3, 4 :: nat] ! 1)] @ gs)
     \<and> ((2 :: nat) = length [1, 4 :: int] \<longrightarrow>
          storage_algorithm [XGate ([3, 4 :: nat] ! 1)] [1, 4 :: int] [0, 1, 2 :: nat] [3, 4 :: nat] [5, 6, 7 :: nat] = Inr ([XGate ([3, 4 :: nat] ! 1)] @ gs))
     \<and> statevector 8 ([XGate ([3, 4 :: nat] ! 1)] @ gs) zero_state = Some \<phi>
     \<and> (\<forall>val\<in>set (take (2 :: nat) [1, 4 :: int]).
          \<phi> (stored_index [5, 6, 7 :: nat] val) = complex_of_real (1 / sqrt (real (length [1, 4 :: int]))))
     \<and> \<phi> (proc_index [3, 4 :: nat]) = complex_of_real (sqrt (real (length [1, 4 :: int] - (2 :: nat)) / real (length [1, 4 :: int])))
     \<and> (\<forall>k. k \<noteq> proc_index [3, 4 :: nat] \<and> k \<notin> stored_index [5, 6, 7 :: nat] ` set (take (2 :: nat) [1, 4 :: int]) \<longrightarrow> \<phi> k = 0)
     \<and> (\<forall>val\<in>set (take (2 :: nat) [1, 4 :: int]).
          cmod (\<phi> (stored_index [5, 6, 7 :: nat] val))
            = 1 / sqrt (real (2 :: nat))
              * sqrt (\<Sum>a\<in>set (take (2 :: nat) [1, 4 :: int]). (cmod (\<phi> (stored_index [5, 6, 7 :: nat] a)))\<^sup>2)))"
    using th by (rule conjunct1)
  have "\<forall>load_index. 1 \<le> load_index \<and> load_index \<le> length [1, 4 :: int] \<longrightarrow>
        (\<exists>g1 g2. storage_body ([] :: circuit) (length [1, 4 :: int]) [0, 1, 2 :: nat] [3, 4 :: nat] [5, 6, 7 :: nat] (load_index - 1) ([1, 4 :: int] ! (load_index - 1))
           = Inr (([] :: circuit) @ g1
                  @ [CRYGate
                       (Num (- 2 * arccos (sqrt (real (length [1, 4 :: int] + 1 - load_index - 1)
                                                 / real (length [1, 4 :: int] + 1 - load_index)))))
                       ([3, 4 :: nat] ! 0) ([3, 4 :: nat] ! 1)]
                  @ g2))"
    using th by (rule conjunct2)
  then have B: "(\<exists>g1 g2. storage_body ([] :: circuit) (length [1, 4 :: int]) [0, 1, 2 :: nat] [3, 4 :: nat] [5, 6, 7 :: nat] ((1 :: nat) - 1) ([1, 4 :: int] ! ((1 :: nat) - 1))
           = Inr (([] :: circuit) @ g1
                  @ [CRYGate
                       (Num (- 2 * arccos (sqrt (real (length [1, 4 :: int] + 1 - (1 :: nat) - 1)
                                                 / real (length [1, 4 :: int] + 1 - (1 :: nat))))))
                       ([3, 4 :: nat] ! 0) ([3, 4 :: nat] ! 1)]
                  @ g2))"
    using h5 by blast
  show ?thesis using h1 h2 h3 h4 h5 A B by blast
qed

text \<open>
  With the pattern 1 stored twice (one qubit per register: pattern qubit 0, intermediate
  qubits 1 and 2, memory qubit 3), the processing term, basis state 4, keeps the
  amplitude \<open>-1/\<surd>2\<close> after the second run, and the one stored pattern, basis state 8, has
  amplitude \<open>1/\<surd>2\<close>: it is the whole stored part of the state, not a share \<open>1/\<surd>2\<close> of it.
\<close>

theorem duplicate_pattern_not_folded:
  "final_amplitude 4 (storage_algorithm [XGate 2] [1, 1] [0] [1, 2] [3]) 4
     = Some (- complex_of_real (1 / sqrt 2))
   \<and> final_amplitude 4 (storage_algorithm [XGate 2] [1, 1] [0] [1, 2] [3]) 8
     = Some (complex_of_real (1 / sqrt 2))"
  using store_twice_small(1) store_twice_small(2) by (rule conjI)

end
